theory Spec2Isabelle
  imports Main "HOL-Library.Word"
begin

unbundle bit_operations_syntax

section \<open>Machine words and the word buffer\<close>

text \<open>
  \<open>uint64_t\<close> and \<open>uint32_t\<close> are 64-bit and 32-bit words: their arithmetic wraps.
  \<open>size_t\<close> counters (\<open>bit_count\<close>, \<open>bit_inc\<close>, \<open>curr_fixed_offset\<close>, word indices) are
  natural numbers: each of them counts bits or words of a buffer held in memory, so it
  stays far below \<open>2 ^ 64\<close> and never wraps. The \<open>int\<close> parameter \<open>log2golomb\<close> and the
  \<open>int\<close> field \<open>valid_lower_bits_unary\<close> are integers. An operation returns \<open>None\<close> where
  the C++ has no defined result: a shift by a negative amount or by 64 or more, a read or
  write outside the buffer, a failed \<open>assert\<close>.
\<close>

type_synonym u64 = "64 word"
type_synonym u32 = "32 word"

text \<open>
  Modelled from the spec: \<open>util::Vector<uint64_t>\<close> (Vector.hpp is not part of the
  sources). The spec calls it a growable array of 64-bit words with \<open>resize(words)\<close>,
  \<open>trimToFit()\<close> and raw word access. The model is the list of its words:
  \<open>Vector n\<close> holds \<open>n\<close> zero words, \<open>resize n\<close> makes the length \<open>n\<close>, keeps the words
  that stay and fills new words with zero; \<open>trimToFit\<close> releases capacity only and
  leaves size and contents as they are.
\<close>

definition Vector :: "nat \<Rightarrow> u64 list" where
  "Vector n = replicate n 0"

definition resize :: "nat \<Rightarrow> u64 list \<Rightarrow> u64 list" where
  "resize n xs = take n xs @ replicate (n - length xs) 0"

definition trimToFit :: "u64 list \<Rightarrow> u64 list" where
  "trimToFit xs = xs"

text \<open>
  Modelled from the spec: the bit primitives of common.hpp (not part of the sources),
  which the spec names "index of lowest set bit" (\<open>rho\<close>), "count set bits in a word"
  (\<open>nu\<close>) and "index of the k-th set bit in a word" (\<open>select64\<close>, \<open>k\<close> counted from 0).
  \<open>set_bits w\<close> lists the indices of the set bits of \<open>w\<close> in increasing order. \<open>rho\<close> is
  only ever applied to a nonzero word and \<open>select64 w k\<close> only with \<open>k < nu w\<close>.
\<close>

definition set_bits :: "u64 \<Rightarrow> nat list" where
  "set_bits w = filter (bit w) [0..<64]"

definition rho :: "u64 \<Rightarrow> nat" where
  "rho w = (case set_bits w of [] \<Rightarrow> 64 | i # _ \<Rightarrow> i)"

definition nu :: "u64 \<Rightarrow> nat" where
  "nu w = length (set_bits w)"

definition select64 :: "u64 \<Rightarrow> nat \<Rightarrow> nat" where
  "select64 w k = (if k < nu w then set_bits w ! k else 64)"

section \<open>RiceBitVector::Builder\<close>

record Builder =
  b_data :: "u64 list"
  bit_count :: nat

text \<open>\<open>Builder(alloc_words)\<close>; the default constructor is \<open>Builder(16)\<close>.\<close>

definition Builder_new :: "nat \<Rightarrow> Builder" where
  "Builder_new alloc_words = \<lparr>b_data = Vector alloc_words, bit_count = 0\<rparr>"

definition Builder_default :: Builder where
  "Builder_default = Builder_new 16"

text \<open>
  \<open>appendFixed\<close>: the mask, the resize, the read of the current word, the OR of the
  shifted remainder, and the spill into the next word when the slot crosses a word
  boundary.
\<close>

definition appendFixed :: "Builder \<Rightarrow> u64 \<Rightarrow> int \<Rightarrow> Builder option" where
  "appendFixed b v log2golomb =
     (if log2golomb < 0 \<or> 64 \<le> log2golomb then None
      else
        let l = nat log2golomb;
            lower_bits = v AND (push_bit l 1 - 1);
            used_bits = bit_count b mod 64;
            d = resize ((((bit_count b + l + 7) div 8) + 7 + 7) div 8) (b_data b);
            append_ptr = bit_count b div 64
        in if length d \<le> append_ptr then None
           else
             let cur_word = (d ! append_ptr) OR push_bit used_bits lower_bits
             in if used_bits + l > 64
                then (if length d \<le> append_ptr + 1 then None
                      else Some \<lparr>b_data = (d[append_ptr := cur_word])
                                    [append_ptr + 1 := drop_bit (64 - used_bits) lower_bits],
                                 bit_count = bit_count b + l\<rparr>)
                else Some \<lparr>b_data = d[append_ptr := cur_word], bit_count = bit_count b + l\<rparr>)"

text \<open>
  \<open>appendUnaryAll\<close>. The first loop adds \<open>u + 1\<close> to \<open>bit_inc\<close>; \<open>u\<close> is a \<open>uint32_t\<close> and
  \<open>1\<close> an \<open>int\<close>, so the sum is computed in 32 bits and wraps before it is widened to
  \<open>size_t\<close>. The second loop advances \<open>bit_count\<close> by \<open>u\<close> (widened, no wrap), sets one
  bit and advances by one.
\<close>

fun unary_bit_inc :: "u32 list \<Rightarrow> nat \<Rightarrow> nat" where
  "unary_bit_inc [] bit_inc = bit_inc"
| "unary_bit_inc (u # us) bit_inc = unary_bit_inc us (bit_inc + unat (u + 1))"

fun unary_write :: "u32 list \<Rightarrow> Builder \<Rightarrow> Builder option" where
  "unary_write [] b = Some b"
| "unary_write (u # us) b =
     (let bc = bit_count b + unat u;
          append_ptr = bc div 64
      in if length (b_data b) \<le> append_ptr then None
         else unary_write us
                \<lparr>b_data = (b_data b)[append_ptr := (b_data b ! append_ptr) OR push_bit (bc mod 64) 1],
                 bit_count = bc + 1\<rparr>)"

definition appendUnaryAll :: "Builder \<Rightarrow> u32 list \<Rightarrow> Builder option" where
  "appendUnaryAll b unary =
     (let bit_inc = unary_bit_inc unary 0;
          d = resize ((((bit_count b + bit_inc + 7) div 8) + 7 + 7) div 8) (b_data b)
      in unary_write unary (b\<lparr>b_data := d\<rparr>))"

definition Builder_getBits :: "Builder \<Rightarrow> nat" where
  "Builder_getBits b = bit_count b"

section \<open>RiceBitVector\<close>

text \<open>
  The sealed vector with its embedded cursor. \<open>curr_ptr_unary\<close> is the index in \<open>data\<close>
  of the next unconsumed unary word (the C++ keeps a pointer into \<open>data\<close>). The
  constructor leaves the pointer uninitialised; every property below starts from
  \<open>readReset\<close>, which sets it.
\<close>

record RiceBitVector =
  data :: "u64 list"
  curr_fixed_offset :: nat
  curr_window_unary :: u64
  curr_ptr_unary :: nat
  valid_lower_bits_unary :: int

definition RiceBitVector_new :: "u64 list \<Rightarrow> RiceBitVector" where
  "RiceBitVector_new d =
     \<lparr>data = d, curr_fixed_offset = 0, curr_window_unary = 0, curr_ptr_unary = 0,
      valid_lower_bits_unary = 0\<rparr>"

definition build :: "Builder \<Rightarrow> RiceBitVector" where
  "build b = RiceBitVector_new (trimToFit (b_data b))"

text \<open>
  \<open>memcpy(&fixed, (uint8_t *)data.p() + byte_off, 8)\<close> on a little-endian machine (the
  spec fixes little-endian bit order): the 8 bytes starting at byte \<open>byte_off\<close> of the
  word array, read as one 64-bit value. They lie in one word when \<open>byte_off\<close> is a
  multiple of 8 and in two adjacent words otherwise.
\<close>

definition load64 :: "u64 list \<Rightarrow> nat \<Rightarrow> u64 option" where
  "load64 d byte_off =
     (if 8 * length d < byte_off + 8 then None
      else
        let i = byte_off div 8; r = byte_off mod 8
        in if r = 0 then Some (d ! i)
           else Some (drop_bit (8 * r) (d ! i) OR push_bit (64 - 8 * r) (d ! (i + 1))))"

text \<open>The inner \<open>while\<close> loop of \<open>readNext\<close>: skip words that are entirely zero.\<close>

function readNext_loop :: "u64 list \<Rightarrow> u64 \<Rightarrow> nat \<Rightarrow> u64 \<Rightarrow> (u64 \<times> nat \<times> u64) option" where
  "readNext_loop d window ptr result =
     (if window = 0
      then (if ptr < length d then readNext_loop d (d ! ptr) (ptr + 1) (result + 64) else None)
      else Some (window, ptr, result))"
  by pat_completeness auto
termination
  by (relation "measure (\<lambda>(d, window, ptr, result). length d - ptr)") auto

declare readNext_loop.simps [simp del]

text \<open>
  The unary half of \<open>readNext\<close> (up to \<open>result += pos\<close>): the quotient, and the new
  window, word pointer and count of valid bits.
\<close>

definition readNext_unary :: "RiceBitVector \<Rightarrow> (u64 \<times> u64 \<times> nat \<times> int) option" where
  "readNext_unary s =
     (let d = data s;
          loaded =
            (if curr_window_unary s = 0
             then (if curr_ptr_unary s < length d
                   then (case readNext_loop d (d ! curr_ptr_unary s) (curr_ptr_unary s + 1)
                                (0 + word_of_int (valid_lower_bits_unary s)) of
                           None \<Rightarrow> None
                         | Some (window, ptr, result) \<Rightarrow> Some (window, ptr, result, 64))
                   else None)
             else Some (curr_window_unary s, curr_ptr_unary s, 0, valid_lower_bits_unary s))
      in case loaded of
           None \<Rightarrow> None
         | Some (window, ptr, result, valid) \<Rightarrow>
             let pos = rho window
             in Some (result + of_nat pos, drop_bit 1 (drop_bit pos window), ptr,
                      valid - (int pos + 1)))"

text \<open>
  \<open>readNext\<close>: the unary half, the shift of the quotient, the unaligned 8-byte read of
  the remainder, its mask, and the new cursor.
\<close>

definition readNext :: "RiceBitVector \<Rightarrow> int \<Rightarrow> (u64 \<times> RiceBitVector) option" where
  "readNext s log2golomb =
     (if log2golomb < 0 \<or> 64 \<le> log2golomb then None
      else
        let l = nat log2golomb
        in case readNext_unary s of
             None \<Rightarrow> None
           | Some (result, window, ptr, valid) \<Rightarrow>
               (case load64 (data s) (curr_fixed_offset s div 8) of
                  None \<Rightarrow> None
                | Some fixed \<Rightarrow>
                    Some (push_bit l result OR
                            (drop_bit (curr_fixed_offset s mod 8) fixed AND (push_bit l 1 - 1)),
                          s\<lparr>curr_fixed_offset := curr_fixed_offset s + l,
                            curr_window_unary := window,
                            curr_ptr_unary := ptr,
                            valid_lower_bits_unary := valid\<rparr>)))"

text \<open>The \<open>while\<close> loop of \<open>skipSubtree\<close>: consume whole words by population count.\<close>

function skipSubtree_loop ::
  "u64 list \<Rightarrow> u64 \<Rightarrow> nat \<Rightarrow> nat \<Rightarrow> int \<Rightarrow> (u64 \<times> nat \<times> nat \<times> int) option" where
  "skipSubtree_loop d window ptr missing valid =
     (if nu window < missing
      then (if ptr < length d
            then skipSubtree_loop d (d ! ptr) (ptr + 1) (missing - nu window) 64
            else None)
      else Some (window, ptr, missing, valid))"
  by pat_completeness auto
termination
  by (relation "measure (\<lambda>(d, window, ptr, missing, valid). length d - ptr)") auto

declare skipSubtree_loop.simps [simp del]

text \<open>
  The unary half of \<open>skipSubtree\<close>: the loop, the select of the last terminator in the
  final word, and the new window, word pointer and count of valid bits.
\<close>

definition skipSubtree_unary ::
  "u64 list \<Rightarrow> u64 \<Rightarrow> nat \<Rightarrow> int \<Rightarrow> nat \<Rightarrow> (u64 \<times> nat \<times> int) option" where
  "skipSubtree_unary d window ptr valid nodes =
     (case skipSubtree_loop d window ptr nodes valid of
        None \<Rightarrow> None
      | Some (window', ptr', missing, valid') \<Rightarrow>
          let cnt = select64 window' (missing - 1)
          in Some (drop_bit 1 (drop_bit cnt window'), ptr', valid' - (int cnt + 1)))"

text \<open>\<open>skipSubtree\<close>; \<open>assert(nodes > 0)\<close> fails for \<open>nodes = 0\<close>.\<close>

definition skipSubtree :: "RiceBitVector \<Rightarrow> nat \<Rightarrow> nat \<Rightarrow> RiceBitVector option" where
  "skipSubtree s nodes fixed_len =
     (if \<not> nodes > 0 then None
      else
        case skipSubtree_unary (data s) (curr_window_unary s) (curr_ptr_unary s)
               (valid_lower_bits_unary s) nodes of
          None \<Rightarrow> None
        | Some (window, ptr, valid) \<Rightarrow>
            Some (s\<lparr>curr_window_unary := window,
                     curr_ptr_unary := ptr,
                     valid_lower_bits_unary := valid,
                     curr_fixed_offset := curr_fixed_offset s + fixed_len\<rparr>))"

definition readReset :: "RiceBitVector \<Rightarrow> nat \<Rightarrow> nat \<Rightarrow> RiceBitVector option" where
  "readReset s bit_pos unary_offset =
     (let unary_pos = bit_pos + unary_offset;
          p = unary_pos div 64
      in if length (data s) \<le> p then None
         else Some (s\<lparr>curr_fixed_offset := bit_pos,
                      curr_ptr_unary := p + 1,
                      curr_window_unary := drop_bit (unary_pos mod 64) (data s ! p),
                      valid_lower_bits_unary := 64 - int (unary_pos mod 64)\<rparr>))"

text \<open>\<open>getBits\<close> of the sealed vector: \<open>data.size() * sizeof(uint64_t)\<close>, and
  \<open>sizeof(uint64_t)\<close> is 8.\<close>

definition getBits :: "RiceBitVector \<Rightarrow> nat" where
  "getBits s = length (data s) * 8"

section \<open>The bit stream, its layout and the scenarios of the specification\<close>

text \<open>
  Bit \<open>k\<close> of the stream lives in word \<open>k div 64\<close> at bit position \<open>k mod 64\<close>; a position
  outside the buffer holds no set bit.
\<close>

definition sbit :: "u64 list \<Rightarrow> nat \<Rightarrow> bool" where
  "sbit d k = (k div 64 < length d \<and> bit (d ! (k div 64)) (k mod 64))"

text \<open>The zero tail: no bit of the buffer at a stream position \<open>\<ge> bit_count\<close> is set.\<close>

definition zero_tail :: "Builder \<Rightarrow> bool" where
  "zero_tail b = (\<forall>k \<in> {bit_count b ..< 64 * length (b_data b)}. \<not> sbit (b_data b) k)"

text \<open>The builder states the public interface can produce.\<close>

inductive reachable :: "Builder \<Rightarrow> bool" where
  construct: "reachable (Builder_new alloc_words)"
| fixed: "reachable b \<Longrightarrow> appendFixed b v log2golomb = Some b' \<Longrightarrow> reachable b'"
| unary: "reachable b \<Longrightarrow> appendUnaryAll b us = Some b' \<Longrightarrow> reachable b'"

text \<open>The unary code of a quotient sequence: \<open>u\<close> zero bits and a one bit for each \<open>u\<close>.\<close>

fun unary_bits :: "u32 list \<Rightarrow> bool list" where
  "unary_bits [] = []"
| "unary_bits (u # us) = replicate (unat u) False @ True # unary_bits us"

text \<open>
  An item is a pair \<open>(v, l)\<close> of a value and its parameter \<open>log2golomb\<close>. Its quotient
  \<open>v >> l\<close> is handed to \<open>appendUnaryAll\<close> in a \<open>std::vector<uint32_t>\<close>, hence converted
  to 32 bits.
\<close>

type_synonym item = "u64 \<times> nat"

definition item_quotient :: "item \<Rightarrow> u32" where
  "item_quotient it = ucast (drop_bit (snd it) (fst it))"

fun appendFixedAll :: "Builder \<Rightarrow> item list \<Rightarrow> Builder option" where
  "appendFixedAll b [] = Some b"
| "appendFixedAll b ((v, l) # its) =
     (case appendFixed b v (int l) of None \<Rightarrow> None | Some b' \<Rightarrow> appendFixedAll b' its)"

text \<open>
  Phase 1, phase 2 and \<open>build()\<close> on a fresh builder: one \<open>appendFixed\<close> per item in
  order, one \<open>appendUnaryAll\<close> with all quotients, then sealing.
\<close>

definition encode_builder :: "nat \<Rightarrow> item list \<Rightarrow> Builder option" where
  "encode_builder alloc_words its =
     (case appendFixedAll (Builder_new alloc_words) its of
        None \<Rightarrow> None
      | Some b \<Rightarrow> appendUnaryAll b (map item_quotient its))"

definition encode :: "nat \<Rightarrow> item list \<Rightarrow> RiceBitVector option" where
  "encode alloc_words its = map_option build (encode_builder alloc_words its)"

text \<open>One \<open>readNext\<close> call per parameter, in order; the decoded values are collected.\<close>

fun readNexts :: "RiceBitVector \<Rightarrow> nat list \<Rightarrow> (u64 list \<times> RiceBitVector) option" where
  "readNexts s [] = Some ([], s)"
| "readNexts s (l # ls) =
     (case readNext s (int l) of
        None \<Rightarrow> None
      | Some (v, s') \<Rightarrow>
          (case readNexts s' ls of None \<Rightarrow> None | Some (vs, s'') \<Rightarrow> Some (v # vs, s'')))"

text \<open>The total width of the fixed region of a list of items.\<close>

definition fixed_len :: "item list \<Rightarrow> nat" where
  "fixed_len its = sum_list (map snd its)"

text \<open>The total width of the unary codes of a list of items.\<close>

definition unary_len :: "item list \<Rightarrow> nat" where
  "unary_len its = sum_list (map (\<lambda>it. unat (item_quotient it) + 1) its)"

text \<open>
  A cursor whose unary part stands at stream position \<open>upos\<close>: the window is the loaded
  word shifted so that bit 0 is stream bit \<open>upos\<close>, the pointer is past the loaded word.
\<close>

definition cursor_at :: "RiceBitVector \<Rightarrow> nat \<Rightarrow> bool" where
  "cursor_at s upos =
     (1 \<le> curr_ptr_unary s \<and> curr_ptr_unary s \<le> length (data s) \<and>
      0 \<le> valid_lower_bits_unary s \<and> valid_lower_bits_unary s \<le> 64 \<and>
      int upos + valid_lower_bits_unary s = 64 * int (curr_ptr_unary s) \<and>
      curr_window_unary s =
        drop_bit (64 - nat (valid_lower_bits_unary s)) (data s ! (curr_ptr_unary s - 1)))"

text \<open>The remainders of the items lie back to back from stream position \<open>off\<close>.\<close>

fun fixed_layout :: "u64 list \<Rightarrow> nat \<Rightarrow> item list \<Rightarrow> bool" where
  "fixed_layout d off [] = True"
| "fixed_layout d off ((v, l) # its) =
     ((\<forall>j < l. sbit d (off + j) = bit v j) \<and> fixed_layout d (off + l) its)"

text \<open>The unary codes of the quotients lie back to back from stream position \<open>upos\<close>.\<close>

fun unary_layout :: "u64 list \<Rightarrow> nat \<Rightarrow> u32 list \<Rightarrow> bool" where
  "unary_layout d upos [] = True"
| "unary_layout d upos (u # us) =
     ((\<forall>j < unat u. \<not> sbit d (upos + j)) \<and> sbit d (upos + unat u) \<and>
      unary_layout d (upos + unat u + 1) us)"

text \<open>
  What \<open>readNext\<close> returns for an item whose remainder starts at stream position \<open>off\<close>:
  the 8 bytes read from byte \<open>off div 8\<close> hold only \<open>64 - off mod 8\<close> bits from \<open>off\<close> on.
\<close>

definition decoded :: "nat \<Rightarrow> item \<Rightarrow> u64" where
  "decoded off it =
     push_bit (snd it) (ucast (item_quotient it)) OR take_bit (min (snd it) (64 - off mod 8)) (fst it)"

fun expected :: "nat \<Rightarrow> item list \<Rightarrow> u64 list" where
  "expected off [] = []"
| "expected off (it # its) = decoded off it # expected (off + snd it) its"

text \<open>
  Every remainder lies within the 8 bytes that \<open>readNext\<close> reads for it. This holds in
  particular when every \<open>log2golomb\<close> is at most 57.
\<close>

fun fits_load :: "nat \<Rightarrow> item list \<Rightarrow> bool" where
  "fits_load off [] = True"
| "fits_load off (it # its) = (snd it + off mod 8 \<le> 64 \<and> fits_load (off + snd it) its)"

text \<open>
  The round trip of the spec: encode the items, place a reader at the start of the sealed
  stream (\<open>readReset(0, F)\<close> with \<open>F\<close> the width of the fixed region) and call \<open>readNext\<close>
  once per item with its parameter.
\<close>

definition round_trip :: "nat \<Rightarrow> item list \<Rightarrow> u64 list option" where
  "round_trip alloc_words its =
     (case encode alloc_words its of
        None \<Rightarrow> None
      | Some rbv \<Rightarrow>
          (case readReset rbv 0 (fixed_len its) of
             None \<Rightarrow> None
           | Some s \<Rightarrow> map_option fst (readNexts s (map snd its))))"

text \<open>
  The concrete scenario of the spec: remainders 3 and 1 with \<open>log2golomb = 2\<close>, then the
  quotients 0 and 2, on a default builder; the reader is placed at the start of the
  sealed stream (fixed region at bit 0, unary region after the 4 fixed bits) and
  \<open>readNext(2)\<close> is called twice.
\<close>

definition scenario_builder :: "Builder option" where
  "scenario_builder =
     (case appendFixed Builder_default 3 2 of
        None \<Rightarrow> None
      | Some b1 \<Rightarrow>
          (case appendFixed b1 1 2 of
             None \<Rightarrow> None
           | Some b2 \<Rightarrow> appendUnaryAll b2 [0, 2]))"

definition scenario_decode :: "u64 list option" where
  "scenario_decode =
     (case scenario_builder of
        None \<Rightarrow> None
      | Some b \<Rightarrow>
          (case readReset (build b) 0 4 of
             None \<Rightarrow> None
           | Some s \<Rightarrow> map_option fst (readNexts s [2, 2])))"

definition scenario_reader :: "RiceBitVector option" where
  "scenario_reader =
     (case scenario_builder of None \<Rightarrow> None | Some b \<Rightarrow> readReset (build b) 0 4)"

text \<open>
  The invariant of the unary cursor: the count of valid bits is between 0 and 64 and the
  window has no set bit at or above it.
\<close>

definition cursor_inv :: "RiceBitVector \<Rightarrow> bool" where
  "cursor_inv s =
     (0 \<le> valid_lower_bits_unary s \<and> valid_lower_bits_unary s \<le> 64 \<and>
      take_bit (nat (valid_lower_bits_unary s)) (curr_window_unary s) = curr_window_unary s)"

text \<open>A sequence of \<open>readNext\<close> and \<open>skipSubtree\<close> calls on one reader; it stops at the first
  call that has no defined result.\<close>

datatype reader_op = ReadNext int | SkipSubtree nat nat

fun apply_op :: "RiceBitVector \<Rightarrow> reader_op \<Rightarrow> RiceBitVector option" where
  "apply_op s (ReadNext log2golomb) = map_option snd (readNext s log2golomb)"
| "apply_op s (SkipSubtree nodes fixed_bits) = skipSubtree s nodes fixed_bits"

fun run_ops :: "RiceBitVector \<Rightarrow> reader_op list \<Rightarrow> RiceBitVector option" where
  "run_ops s [] = Some s"
| "run_ops s (op # ops) = (case apply_op s op of None \<Rightarrow> None | Some s' \<Rightarrow> run_ops s' ops)"

section \<open>The Fenwick tree contract\<close>

text \<open>
  Modelled from the spec: \<open>FenwickTree::prefix\<close> and \<open>FenwickTree::find(uint64_t *)\<close>.
  Tree.hpp declares them pure virtual and no implementing class is part of the sources.
  The spec gives the contract over the logical sequence of elements, indexed from 1:
  \<open>prefix(length)\<close> is the sum of the elements in \<open>(0, length]\<close>, and \<open>find(bound)\<close> returns
  the greatest \<open>length\<close> with \<open>prefix(length) \<le> bound\<close> together with the excess
  \<open>bound - prefix(length)\<close>, and length 0 with the full bound when no nonempty prefix
  satisfies the bound. Elements are integers, so that "all elements nonnegative" is a
  condition on the state; sums are not reduced modulo \<open>2 ^ 64\<close>.
\<close>

definition prefix_sum :: "int list \<Rightarrow> nat \<Rightarrow> int" where
  "prefix_sum xs len = sum_list (take len xs)"

fun find_from :: "int list \<Rightarrow> int \<Rightarrow> nat \<Rightarrow> nat" where
  "find_from xs bound 0 = 0"
| "find_from xs bound (Suc len) =
     (if prefix_sum xs (Suc len) \<le> bound then Suc len else find_from xs bound len)"

definition find_ptr :: "int list \<Rightarrow> int \<Rightarrow> nat \<times> int" where
  "find_ptr xs bound =
     (let len = find_from xs bound (length xs) in (len, bound - prefix_sum xs len))"

text \<open>
  \<open>size_t find(uint64_t val) const { return find(&val); }\<close> of Tree.hpp: the bound is a
  local copy, the length is returned and the excess is dropped.
\<close>

definition find_val :: "int list \<Rightarrow> int \<Rightarrow> nat" where
  "find_val xs val = fst (find_ptr xs val)"

section \<open>Properties of the bit primitives\<close>

lemma set_bits_iff: "i \<in> set (set_bits w) \<longleftrightarrow> bit w i"
  by (auto simp: set_bits_def dest: bit_imp_le_length)

lemma set_bits_sorted: "sorted_wrt (<) (set_bits w)"
  by (simp add: set_bits_def sorted_wrt_filter)

lemma set_bits_split:
  assumes "n \<le> 64"
  shows "set_bits w = filter (bit w) [0..<n] @ map ((+) n) (set_bits (drop_bit n w))"
proof -
  have a: "[0..<64] = [0..<n] @ [n..<64]"
    using assms upt_add_eq_append[of 0 n "64 - n"] by simp
  have b: "[n..<64] = map ((+) n) [0..<64 - n]"
    proof -
    have "(+) n = (\<lambda>i. i + n)" by (simp add: fun_eq_iff)
    then show ?thesis using assms map_add_upt[of n "64 - n"] by simp
  qed
  have c: "[0..<64] = [0..<64 - n] @ [64 - n..<64]"
    using assms upt_add_eq_append[of 0 "64 - n" n] by simp
  have d: "filter (\<lambda>i. bit w (n + i)) [64 - n..<64] = []"
    by (auto simp: filter_empty_conv dest!: bit_imp_le_length)
  have "set_bits (drop_bit n w) = filter (\<lambda>i. bit w (n + i)) [0..<64 - n]"
    unfolding set_bits_def using d by (subst c) (simp add: bit_drop_bit_eq comp_def)
  then show ?thesis
    unfolding set_bits_def by (subst a) (simp add: b filter_map comp_def)
qed

lemma set_bits_nonempty: "w \<noteq> 0 \<Longrightarrow> set_bits w \<noteq> []"
proof
  assume "w \<noteq> 0" "set_bits w = []"
  then have "\<And>i. \<not> bit w i" using set_bits_iff[of _ w] by simp
  then have "w = 0" by (simp add: bit_eq_iff)
  with \<open>w \<noteq> 0\<close> show False by simp
qed

lemma rho_props:
  assumes "w \<noteq> 0"
  shows "bit w (rho w)" and "\<And>j. j < rho w \<Longrightarrow> \<not> bit w j" and "rho w < 64"
proof -
  obtain i r where ir: "set_bits w = i # r"
    using set_bits_nonempty[OF assms] by (cases "set_bits w") auto
  then have rho: "rho w = i" by (simp add: rho_def)
  have "i \<in> set (set_bits w)" using ir by simp
  then show "bit w (rho w)" using rho set_bits_iff by simp
  then show "rho w < 64" by (auto dest: bit_imp_le_length)
  have low: "\<forall>x\<in>set r. i < x" using set_bits_sorted[of w] ir by simp
  show "\<not> bit w j" if "j < rho w" for j
  proof
    assume "bit w j"
    then have "j \<in> set (i # r)" using set_bits_iff ir by metis
    with low that rho show False by auto
  qed
qed

lemma rho_unique:
  assumes "bit w p" and "\<And>j. j < p \<Longrightarrow> \<not> bit w j"
  shows "rho w = p"
proof -
  have nz: "w \<noteq> 0" using assms(1) by auto
  have "\<not> rho w < p" using assms(2) rho_props(1)[OF nz] by blast
  moreover have "\<not> p < rho w" using assms(1) rho_props(2)[OF nz] by blast
  ultimately show ?thesis by simp
qed

lemma set_bits_rho:
  assumes "w \<noteq> 0"
  shows "set_bits w = rho w # map ((+) (rho w + 1)) (set_bits (drop_bit (rho w + 1) w))"
proof -
  have "filter (bit w) [0..<rho w + 1] = [rho w]"
    using rho_props(1,2)[OF assms] by (simp add: filter_empty_conv)
  then show ?thesis
    using set_bits_split[of "rho w + 1" w] rho_props(3)[OF assms] by simp
qed

lemma nu_drop_rho: "w \<noteq> 0 \<Longrightarrow> nu w = Suc (nu (drop_bit (rho w + 1) w))"
  unfolding nu_def by (subst set_bits_rho) simp_all

lemma nu_zero [simp]: "nu 0 = 0"
  by (simp add: nu_def set_bits_def)

lemma nu_pos: "w \<noteq> 0 \<Longrightarrow> 0 < nu w"
  by (simp add: nu_drop_rho)

lemma select64_0: "w \<noteq> 0 \<Longrightarrow> select64 w 0 = rho w"
  unfolding select64_def using nu_pos[of w] by (subst set_bits_rho) simp_all

lemma select64_Suc:
  assumes "w \<noteq> 0" "Suc k < nu w"
  shows "select64 w (Suc k) = rho w + 1 + select64 (drop_bit (rho w + 1) w) k"
proof -
  have k: "k < nu (drop_bit (rho w + 1) w)" using assms nu_drop_rho[of w] by simp
  then have "k < length (set_bits (drop_bit (rho w + 1) w))" by (simp add: nu_def)
  then show ?thesis
    unfolding select64_def using assms(2) k by (subst set_bits_rho[OF assms(1)]) simp
qed

lemma select64_bit: "k < nu w \<Longrightarrow> bit w (select64 w k)"
  unfolding select64_def nu_def using set_bits_iff[of "set_bits w ! k" w] by simp

section \<open>The effect of appendFixed on the stream\<close>

lemma sbit_resize: "sbit (resize n d) k = (k < 64 * n \<and> sbit d k)"
  by (auto simp: sbit_def resize_def nth_append)

lemma length_resize [simp]: "length (resize n d) = n"
  by (simp add: resize_def)

lemma sbit_update:
  "sbit (d[i := w]) k = (if k div 64 = i then i < length d \<and> bit w (k mod 64) else sbit d k)"
  by (auto simp: sbit_def)

lemma sbit_bound: "sbit d k \<Longrightarrow> k < 64 * length d"
  by (auto simp: sbit_def)

lemma zero_tail_iff: "zero_tail b \<longleftrightarrow> (\<forall>k \<ge> bit_count b. \<not> sbit (b_data b) k)"
  using sbit_bound by (fastforce simp: zero_tail_def)

lemma lower_bits_eq: "v AND (push_bit l 1 - 1) = take_bit l (v::u64)"
  by (simp add: take_bit_eq_mask mask_eq_exp_minus_1 push_bit_eq_mult)

lemma resize_words: "(B::nat) + l + 48 \<le> 64 * ((((B + l + 7) div 8) + 7 + 7) div 8)"
proof -
  define x where "x = (B + l + 7) div 8"
  define y where "y = (x + 7 + 7) div 8"
  have "B + l + 7 < 8 * x + 8" unfolding x_def using dividend_less_times_div[of 8 "B + l + 7"] by simp
  moreover have "x + 14 < 8 * y + 8" unfolding y_def using dividend_less_times_div[of 8 "x + 7 + 7"] by simp
  ultimately have "B + l + 48 \<le> 64 * y" by linarith
  then show ?thesis by (simp add: x_def y_def)
qed

lemma word_pos:
  obtains q j where "(k::nat) = 64 * q + j" "j < 64" "k div 64 = q" "k mod 64 = j"
  using mult_div_mod_eq[of 64 k] by (metis mod_less_divisor zero_less_numeral)

lemma or_push_bit: "j < 64 \<Longrightarrow> bit (w OR push_bit used (take_bit l v)) j = (bit w j \<or> (used \<le> j \<and> j - used < l \<and> bit v (j - used)))" for w v :: "64 word"
  by (auto simp: bit_or_iff bit_push_bit_iff bit_take_bit_iff)

lemma drop_take: "j < 64 \<Longrightarrow> bit (drop_bit n (take_bit l v)) j = (n + j < l \<and> bit v (n + j))" for v :: "64 word"
  by (auto simp: bit_drop_bit_eq bit_take_bit_iff)

lemma bit_word_sbit: "i < length d \<Longrightarrow> j < 64 \<Longrightarrow> bit (d ! i) j = sbit d (64 * i + j)"
  by (simp add: sbit_def)

lemma appendFixed_post:
  assumes zt: "zero_tail b" and l: "0 \<le> l" "l \<le> 63"
  shows "\<exists>b'. appendFixed b v l = Some b' \<and> bit_count b' = bit_count b + nat l \<and>
           length (b_data b') = (((bit_count b + nat l + 7) div 8) + 7 + 7) div 8 \<and>
           (\<forall>k. sbit (b_data b') k =
                 (if k < bit_count b then sbit (b_data b) k
                  else k < bit_count b + nat l \<and> bit v (k - bit_count b)))"
proof -
  define B where "B = bit_count b"
  define ln where "ln = nat l"
  have ln: "ln \<le> 63" "int ln = l" using l by (simp_all add: ln_def)
  define n where "n = (((B + ln + 7) div 8) + 7 + 7) div 8"
  define d where "d = resize n (b_data b)"
  define ap where "ap = B div 64"
  define used where "used = B mod 64"
  define lb where "lb = take_bit (ln) v"
  have n48: "B + ln + 48 \<le> 64 * n" unfolding n_def by (rule resize_words)
  have dz: "sbit d k = (k < B \<and> sbit (b_data b) k)" for k
    using zt n48 unfolding d_def sbit_resize zero_tail_iff B_def by (cases "k < bit_count b") auto
  have lb: "v AND (push_bit (ln) 1 - 1) = lb" by (simp only: lb_def lower_bits_eq)
  have len: "length d = n" by (simp add: d_def)
  have Bd: "B = 64 * ap + used" "used < 64" by (simp_all add: ap_def used_def)
  have ap: "ap < n" using n48 Bd by linarith
  have w0: "bit (d ! ap) j = (j < used \<and> sbit (b_data b) (64 * ap + j))" if "j < 64" for j
  proof -
    have "(64 * ap + j < B) = (j < used)" using that Bd by linarith
    then show ?thesis using bit_word_sbit[of ap d j] that ap len dz by simp
  qed
  show ?thesis
  proof (cases "used + ln > 64")
    case False
    have eq: "appendFixed b v l = Some \<lparr>b_data = d[ap := (d ! ap) OR push_bit used lb], bit_count = B + ln\<rparr>"
      unfolding appendFixed_def Let_def ln_def[symmetric] lb using l False ap len
      by (simp add: B_def n_def d_def ap_def used_def)
    have "sbit (d[ap := (d ! ap) OR push_bit used lb]) k =
            (if k < B then sbit (b_data b) k else k < B + ln \<and> bit v (k - B))" for k
    proof -
      obtain q j where j: "k = 64 * q + j" "j < 64" "k mod 64 = j" and q: "k div 64 = q" by (rule word_pos)
      show ?thesis
      proof (cases "q = ap")
        case True
        have kj: "64 * ap + j = k" using j(1) True by simp
        have w: "bit (d ! ap) j = (j < used \<and> sbit (b_data b) k)"
          using w0[OF j(2)] kj by simp
        have a: "(k < B) = (j < used)" using kj Bd by linarith
        have b: "\<not> k < B \<Longrightarrow> k - B = j - used" using kj Bd by linarith
        have c: "\<not> k < B \<Longrightarrow> (k < B + ln) = (j - used < ln)" using kj Bd by linarith
        show ?thesis
          using True ap len w a b c j(2,3) q
          by (auto simp: sbit_update or_push_bit lb_def)
      next
        case F: False
        have "q < ap \<or> ap < q" using F by linarith
        then have "(k < B) \<or> B + ln \<le> k" using False j(1,2) Bd by linarith
        moreover have "sbit (d[ap := (d ! ap) OR push_bit used lb]) k = sbit d k"
          using F q by (simp add: sbit_update)
        ultimately show ?thesis unfolding dz by auto
      qed
    qed
    then show ?thesis using eq len by (simp add: B_def n_def ln_def)
  next
    case True
    have ap1: "ap + 1 < n" using n48 True Bd by linarith
    have eq: "appendFixed b v l = Some \<lparr>b_data = (d[ap := (d ! ap) OR push_bit used lb])[ap + 1 := drop_bit (64 - used) lb], bit_count = B + ln\<rparr>"
      unfolding appendFixed_def Let_def ln_def[symmetric] lb using l True ap ap1 len
      by (simp add: B_def n_def d_def ap_def used_def)
    have "sbit ((d[ap := (d ! ap) OR push_bit used lb])[ap + 1 := drop_bit (64 - used) lb]) k =
            (if k < B then sbit (b_data b) k else k < B + ln \<and> bit v (k - B))" for k
    proof -
      obtain q j where j: "k = 64 * q + j" "j < 64" "k mod 64 = j" and q: "k div 64 = q" by (rule word_pos)
      consider (a) "q = ap" | (b) "q = ap + 1" | (c) "q < ap \<or> ap + 1 < q"
        by linarith
      then show ?thesis
      proof cases
        case a
        have kj: "64 * ap + j = k" using j(1) a by simp
        have w: "bit (d ! ap) j = (j < used \<and> sbit (b_data b) k)"
          using w0[OF j(2)] kj by simp
        have a1: "(k < B) = (j < used)" using kj Bd by linarith
        have b1: "\<not> k < B \<Longrightarrow> k - B = j - used" using kj Bd by linarith
        have c1: "\<not> k < B \<Longrightarrow> k < B + ln \<and> j - used < ln" using kj Bd True j(2) by linarith
        show ?thesis
          using a ap len w a1 b1 c1 j(2,3) q
          by (auto simp: sbit_update or_push_bit lb_def)
      next
        case b
        have kj: "64 * ap + 64 + j = k" using j(1) b by simp
        have a1: "\<not> k < B" using kj Bd by linarith
        have b1: "k - B = 64 - used + j" using kj Bd by linarith
        have c1: "(k < B + ln) = (64 - used + j < ln)" using kj Bd by linarith
        show ?thesis
          using b ap1 len a1 b1 c1 j(2,3) q
          by (auto simp: sbit_update drop_take lb_def)
      next
        case c
        then have "(k < B) \<or> B + ln \<le> k" using ln j(1,2) Bd by linarith
        moreover have "q \<noteq> ap" "q \<noteq> ap + 1" using c by auto
        then have "sbit ((d[ap := (d ! ap) OR push_bit used lb])[ap + 1 := drop_bit (64 - used) lb]) k = sbit d k"
          using q by (simp add: sbit_update)
        ultimately show ?thesis unfolding dz by auto
      qed
    qed
    then show ?thesis using eq len by (simp add: B_def n_def ln_def)
  qed
qed

section \<open>The effect of appendUnaryAll on the stream\<close>

lemma bit_one_shift: "m < 64 \<Longrightarrow> bit (w OR 2 ^ m) j = (bit w j \<or> j = m)" for w :: u64
  by (auto simp: bit_or_iff bit_exp_iff)

lemma sbit_set_one:
  assumes "bc div 64 < length d"
  shows "sbit (d[bc div 64 := (d ! (bc div 64)) OR push_bit (bc mod 64) 1]) k = (sbit d k \<or> k = bc)"
proof -
  obtain q j where j: "k = 64 * q + j" "j < 64" "k div 64 = q" "k mod 64 = j" by (rule word_pos)
  obtain q' j' where j': "bc = 64 * q' + j'" "j' < 64" "bc div 64 = q'" "bc mod 64 = j'" by (rule word_pos)
  have e: "(k = bc) = (q = q' \<and> j = j')" by (metis j(1,3,4) j'(1,3,4))
  show ?thesis
    unfolding sbit_update j(3,4) j'(3,4) using assms j(2) j'(2)
    by (auto simp: e bit_one_shift j'(3) sbit_def j(3,4))
qed

lemma unary_bits_length: "length (unary_bits us) = sum_list (map (\<lambda>u. unat u + 1) us)"
  by (induction us) auto

lemma unary_Cons_shift:
  "(unat u + 1 + m < length (unary_bits (u # us)) \<and> unary_bits (u # us) ! (unat u + 1 + m)) =
   (m < length (unary_bits us) \<and> unary_bits us ! m)"
  by (simp add: nth_append)

lemma unary_write_post:
  assumes "unary_write us b = Some b'" "zero_tail b"
  shows "bit_count b' = bit_count b + length (unary_bits us) \<and>
         length (b_data b') = length (b_data b) \<and>
         (\<forall>k. sbit (b_data b') k =
               (if k < bit_count b then sbit (b_data b) k
                else k - bit_count b < length (unary_bits us) \<and> unary_bits us ! (k - bit_count b)))"
  using assms
proof (induction us arbitrary: b)
  case Nil
  then show ?case by (auto simp: zero_tail_iff)
next
  case (Cons u us)
  define B where "B = bit_count b"
  define bc where "bc = B + unat u"
  define b1 where "b1 = \<lparr>b_data = (b_data b)[bc div 64 := (b_data b ! (bc div 64)) OR push_bit (bc mod 64) 1],
                          bit_count = bc + 1\<rparr>"
  have inb: "bc div 64 < length (b_data b)" and w: "unary_write us b1 = Some b'"
    using Cons.prems(1) by (auto simp: Let_def bc_def B_def b1_def split: if_splits)
  have s1: "sbit (b_data b1) k = (sbit (b_data b) k \<or> k = bc)" for k
    unfolding b1_def using sbit_set_one[OF inb] by simp
  have zt: "\<And>k. B \<le> k \<Longrightarrow> \<not> sbit (b_data b) k"
    using Cons.prems(2) by (simp add: zero_tail_iff B_def)
  have zt1: "zero_tail b1"
    unfolding zero_tail_iff using s1 zt by (auto simp: b1_def bc_def)
  have bc1: "bit_count b1 = bc + 1" by (simp add: b1_def)
  have len1: "length (b_data b1) = length (b_data b)" by (simp add: b1_def)
  note IH = Cons.IH[OF w zt1, unfolded bc1 len1]
  have "sbit (b_data b') k =
          (if k < B then sbit (b_data b) k
           else k - B < length (unary_bits (u # us)) \<and> unary_bits (u # us) ! (k - B))" for k
  proof -
    consider (a) "k < B" | (b) "B \<le> k" "k < bc" | (c) "k = bc" | (d) "bc < k" by linarith
    then show ?thesis
    proof cases
      case a
      then show ?thesis using IH s1 by (simp add: bc_def)
    next
      case b
      then have "k - B < unat u" by (simp add: bc_def)
      then show ?thesis using b IH s1 zt by (simp add: nth_append)
    next
      case c
      then have "k - B = unat u" by (simp add: bc_def)
      then show ?thesis using c IH s1 by (simp add: nth_append bc_def)
    next
      case d
      define m where "m = k - (bc + 1)"
      have e: "k - B = unat u + 1 + m" "\<not> k < B" "\<not> k < bc + 1" "k - (bc + 1) = m"
        using d by (simp_all add: bc_def m_def)
      have "sbit (b_data b') k = (m < length (unary_bits us) \<and> unary_bits us ! m)"
        using IH e(3,4) by simp
      then show ?thesis using e(2) unfolding e(1) unary_Cons_shift by simp
    qed
  qed
  then show ?case using IH by (simp add: B_def bc_def)
qed

lemma unary_write_Some:
  "bit_count b + length (unary_bits us) \<le> 64 * length (b_data b) \<Longrightarrow> \<exists>b'. unary_write us b = Some b'"
proof (induction us arbitrary: b)
  case Nil
  then show ?case by simp
next
  case (Cons u us)
  have "bit_count b + unat u < 64 * length (b_data b)" using Cons.prems by simp
  then have inb: "(bit_count b + unat u) div 64 < length (b_data b)"
    by (simp add: div_less_iff_less_mult mult.commute)
  show ?case using inb Cons.prems by (simp add: Let_def Cons.IH)
qed

lemma unary_bit_inc_eq:
  "\<forall>u\<in>set us. u \<noteq> - 1 \<Longrightarrow> unary_bit_inc us acc = acc + length (unary_bits us)"
proof (induction us arbitrary: acc)
  case Nil
  then show ?case by simp
next
  case (Cons u us)
  have "u \<noteq> - 1" using Cons.prems by simp
  then have "1 + u \<noteq> 0" by (simp add: add.commute eq_neg_iff_add_eq_0)
  then have "unat (u + 1) = unat u + 1"
    using unatSuc[of u] by (simp add: add.commute)
  then show ?case using Cons by simp
qed

section \<open>The zero tail of the builder\<close>

lemma zero_tail_new: "zero_tail (Builder_new n)"
  by (simp add: zero_tail_def Builder_new_def Vector_def sbit_def)

lemma appendFixed_range: "appendFixed b v l = Some b' \<Longrightarrow> 0 \<le> l \<and> l \<le> 63"
  by (auto simp: appendFixed_def split: if_splits)

lemma appendFixed_zero_tail:
  assumes "zero_tail b" "appendFixed b v l = Some b'"
  shows "zero_tail b'"
proof -
  have l: "0 \<le> l" "l \<le> 63" using appendFixed_range[OF assms(2)] by auto
  show ?thesis
    using appendFixed_post[OF assms(1) l, of v] assms(2) by (auto simp: zero_tail_iff)
qed

lemma appendUnaryAll_gen:
  assumes "appendUnaryAll b us = Some b'" "zero_tail b"
  shows "bit_count b' = bit_count b + length (unary_bits us)"
    and "length (b_data b') =
           (((bit_count b + unary_bit_inc us 0 + 7) div 8) + 7 + 7) div 8"
    and "\<And>k. sbit (b_data b') k =
               (if k < bit_count b then sbit (b_data b) k
                else k - bit_count b < length (unary_bits us) \<and> unary_bits us ! (k - bit_count b))"
proof -
  define n where "n = (((bit_count b + unary_bit_inc us 0 + 7) div 8) + 7 + 7) div 8"
  define b0 where "b0 = b\<lparr>b_data := resize n (b_data b)\<rparr>"
  have w: "unary_write us b0 = Some b'"
    using assms(1) by (simp add: appendUnaryAll_def Let_def n_def b0_def)
  have n48: "bit_count b + unary_bit_inc us 0 + 48 \<le> 64 * n" unfolding n_def by (rule resize_words)
  have s0: "sbit (b_data b0) k = (k < bit_count b \<and> sbit (b_data b) k)" for k
    using assms(2) n48 unfolding b0_def zero_tail_iff by (cases "k < bit_count b") (auto simp: sbit_resize)
  have zt0: "zero_tail b0" unfolding zero_tail_iff using s0 by (simp add: b0_def)
  have bc0: "bit_count b0 = bit_count b" "length (b_data b0) = n" by (simp_all add: b0_def)
  note P = unary_write_post[OF w zt0, unfolded bc0]
  show "bit_count b' = bit_count b + length (unary_bits us)" using P by simp
  show "length (b_data b') = (((bit_count b + unary_bit_inc us 0 + 7) div 8) + 7 + 7) div 8"
    using P by (simp add: n_def)
  show "sbit (b_data b') k =
               (if k < bit_count b then sbit (b_data b) k
                else k - bit_count b < length (unary_bits us) \<and> unary_bits us ! (k - bit_count b))" for k
    using P s0 by simp
qed

lemma appendUnaryAll_zero_tail:
  assumes "zero_tail b" "appendUnaryAll b us = Some b'"
  shows "zero_tail b'"
  unfolding zero_tail_iff appendUnaryAll_gen(1)[OF assms(2,1)] appendUnaryAll_gen(3)[OF assms(2,1)]
  by auto

lemma appendUnaryAll_Some:
  assumes "\<forall>u\<in>set us. u \<noteq> - 1"
  shows "\<exists>b'. appendUnaryAll b us = Some b'"
proof -
  define n where "n = (((bit_count b + unary_bit_inc us 0 + 7) div 8) + 7 + 7) div 8"
  have n48: "bit_count b + unary_bit_inc us 0 + 48 \<le> 64 * n" unfolding n_def by (rule resize_words)
  have "bit_count b + length (unary_bits us) \<le> 64 * n"
    using n48 unary_bit_inc_eq[OF assms, of 0] by simp
  then have "\<exists>b'. unary_write us (b\<lparr>b_data := resize n (b_data b)\<rparr>) = Some b'"
    by (intro unary_write_Some) simp
  then show ?thesis by (simp add: appendUnaryAll_def Let_def n_def)
qed

lemma reachable_zero_tail: "reachable b \<Longrightarrow> zero_tail b"
  by (induction rule: reachable.induct)
     (auto intro: zero_tail_new appendFixed_zero_tail appendUnaryAll_zero_tail)

section \<open>Postconditions of the builder\<close>

lemma scenario_builder_eq: "scenario_builder = Some \<lparr>b_data = [151], bit_count = 8\<rparr>"
  by code_simp

lemma fixed_3_2: "appendFixed (Builder_new 16) 3 2 = Some \<lparr>b_data = [3], bit_count = 2\<rparr>"
  by code_simp

text \<open>
  C2 as stated: in the concrete scenario the sealed stream has 4 + 6 = 10 written bits.
  The unary codes of the quotients 0 and 2 are \<open>1\<close> and \<open>001\<close>, four bits in all, so
  the builder has written 4 + 4 = 8 bits, not 10.
\<close>

theorem C2_scenario_counterexample:
  "map_option Builder_getBits scenario_builder \<noteq> Some 10"
  by (simp add: scenario_builder_eq Builder_getBits_def)

text \<open>
  C2, amended: in the concrete scenario (\<open>appendFixed(3, 2)\<close>, \<open>appendFixed(1, 2)\<close>,
  \<open>appendUnaryAll([0, 2])\<close> on a fresh builder) the builder has written 4 + 4 = 8 bits,
  and a reader placed at the start of the sealed stream returns 3 from the first
  \<open>readNext(2)\<close> and \<open>(2 << 2) | 1 = 9\<close> from the second.
\<close>

theorem C2_scenario:
  "map_option Builder_getBits scenario_builder = Some 8 \<and> scenario_decode = Some [3, 9]"
  by code_simp

text \<open>
  C5: for every builder state with bit count \<open>B\<close> and every \<open>v\<close> and \<open>l\<close> with
  \<open>0 \<le> l \<le> 63\<close>, \<open>appendFixed(v, l)\<close> returns, makes stream bits \<open>[B, B + l)\<close> the low
  \<open>l\<close> bits of \<open>v\<close>, leaves stream bits \<open>[0, B)\<close> unchanged and increases the bit count
  by exactly \<open>l\<close>. The stream bits are read through \<open>sbit\<close>, so a slot that crosses a word
  boundary is covered: its bits lie in two adjacent words.
\<close>

theorem C5_appendFixed_postcondition:
  assumes "reachable b" and "0 \<le> l" and "l \<le> 63"
  shows "\<exists>b'. appendFixed b v l = Some b' \<and>
              bit_count b' = bit_count b + nat l \<and>
              (\<forall>k < bit_count b. sbit (b_data b') k = sbit (b_data b) k) \<and>
              (\<forall>j < nat l. sbit (b_data b') (bit_count b + j) = bit v j)"
proof -
  from appendFixed_post[OF reachable_zero_tail[OF assms(1)] assms(2,3), of v]
  obtain b' where b': "appendFixed b v l = Some b'" "bit_count b' = bit_count b + nat l"
    and bits: "\<And>k. sbit (b_data b') k =
                 (if k < bit_count b then sbit (b_data b) k
                  else k < bit_count b + nat l \<and> bit v (k - bit_count b))"
    by blast
  show ?thesis using b' bits by simp
qed

theorem C5_appendFixed_postcondition_witness:
  "reachable \<lparr>b_data = [3], bit_count = 2\<rparr> \<and>
   (\<exists>b'. appendFixed \<lparr>b_data = [3], bit_count = 2\<rparr> 1 2 = Some b' \<and>
         bit_count b' = 4 \<and>
         sbit (b_data b') 0 \<and> sbit (b_data b') 1 \<and> sbit (b_data b') 2 \<and> \<not> sbit (b_data b') 3)"
proof -
  have r: "reachable \<lparr>b_data = [3], bit_count = 2\<rparr>"
    using reachable.fixed[OF reachable.construct fixed_3_2] .
  have s: "sbit [3] 0" "sbit [3] 1" by (simp_all add: sbit_def bit_numeral_rec)
  from C5_appendFixed_postcondition[OF r, of 2 1]
  obtain b' where b': "appendFixed \<lparr>b_data = [3], bit_count = 2\<rparr> 1 2 = Some b'"
      "bit_count b' = 4"
      "\<forall>k < 2. sbit (b_data b') k = sbit [3] k"
      "\<forall>j < 2. sbit (b_data b') (2 + j) = bit (1::u64) j"
    by auto
  have "sbit (b_data b') 0" "sbit (b_data b') 1" using b'(3) s by simp_all
  moreover have "sbit (b_data b') 2" "\<not> sbit (b_data b') 3"
    using b'(4)[rule_format, of 0] b'(4)[rule_format, of 1] by simp_all
  ultimately show ?thesis using r b'(1,2) by auto
qed

text \<open>
  C6: \<open>appendUnaryAll\<close> writes, for every sequence of 32-bit quotients, \<open>u\<close> zero bits
  and a one bit per quotient and grows the buffer up front to the sum of \<open>u + 1\<close>. The
  code computes \<open>u + 1\<close> in 32 bits: for \<open>u = 0xFFFFFFFF\<close> the sum it adds is 0, the buffer
  of a default builder is resized to one word, and the terminating bit of the code (stream
  position \<open>2 ^ 32 - 1\<close>) is written outside it.
\<close>

theorem C6_unary_overflow:
  "unary_bit_inc [0xFFFFFFFF] 0 = 0 \<and> appendUnaryAll Builder_default [0xFFFFFFFF] = None"
  by (simp add: appendUnaryAll_def resize_def Builder_default_def Builder_new_def Vector_def
      Let_def)

text \<open>
  The postcondition holds when no quotient is \<open>0xFFFFFFFF\<close>: the call returns, the unary
  codes are written contiguously from bit \<open>B\<close> in sequence order, bits \<open>[0, B)\<close> are
  unchanged, the bit count grows by the sum of \<open>u + 1\<close>, and the buffer has been resized
  to cover that total.
\<close>

lemma appendUnaryAll_post:
  assumes "reachable b" and "\<forall>u\<in>set us. u \<noteq> - 1"
  shows "\<exists>b'. appendUnaryAll b us = Some b' \<and>
              bit_count b' = bit_count b + sum_list (map (\<lambda>u. unat u + 1) us) \<and>
              bit_count b' \<le> 64 * length (b_data b') \<and>
              (\<forall>k < bit_count b. sbit (b_data b') k = sbit (b_data b) k) \<and>
              (\<forall>j < length (unary_bits us). sbit (b_data b') (bit_count b + j) = unary_bits us ! j)"
proof -
  obtain b' where b': "appendUnaryAll b us = Some b'"
    using appendUnaryAll_Some[OF assms(2)] by blast
  note zt = reachable_zero_tail[OF assms(1)]
  note g = appendUnaryAll_gen[OF b' zt]
  have "bit_count b + length (unary_bits us) + 48 \<le> 64 * length (b_data b')"
    unfolding g(2) unary_bit_inc_eq[OF assms(2), of 0] using resize_words[of "bit_count b" "length (unary_bits us)"]
    by simp
  then show ?thesis using b' g(1,3) by (simp add: unary_bits_length)
qed

text \<open>
  C7: \<open>getBits\<close> of a sealed vector returns 64 times the word count of the buffer. The
  code multiplies the word count by \<open>sizeof(uint64_t)\<close>, which is 8: for the sealed vector
  of the concrete scenario, one word long, it returns 8 and not 64.
\<close>

theorem C7_getBits_scenario:
  "map_option (\<lambda>b. (getBits (build b), length (data (build b)))) scenario_builder = Some (8, 1)"
  by (simp add: scenario_builder_eq getBits_def build_def RiceBitVector_new_def trimToFit_def)

text \<open>
  \<open>appendUnaryAll\<close> relies on the zero tail: \<open>unary_write\<close> only sets the terminating
  bits. On a buffer whose bit 0 is set beyond a bit count of 0, the unary code of the
  quotient 1 (a zero bit, then a one bit) is written with its zero bit left set.
\<close>

lemma unary_needs_zero_tail:
  "map_option (\<lambda>b'. (sbit (b_data b') 0, sbit (b_data b') 1))
     (appendUnaryAll \<lparr>b_data = [1], bit_count = 0\<rparr> [1]) = Some (True, True)"
  by code_simp

text \<open>
  C10: after the construction of a builder and after every \<open>appendFixed\<close> and
  \<open>appendUnaryAll\<close> call, every bit of the backing buffer at a stream position
  \<open>\<ge> bit_count\<close> is zero.
\<close>

theorem C10_zero_tail:
  assumes "reachable b"
  shows "\<forall>k \<ge> bit_count b. \<not> sbit (b_data b) k"
  using reachable_zero_tail[OF assms] by (simp add: zero_tail_iff)

theorem C10_zero_tail_witness:
  "reachable \<lparr>b_data = [3], bit_count = 2\<rparr> \<and> \<not> sbit [3] 2 \<and> \<not> sbit [3] 64"
proof -
  have r: "reachable \<lparr>b_data = [3], bit_count = 2\<rparr>"
    using reachable.fixed[OF reachable.construct fixed_3_2] .
  show ?thesis using C10_zero_tail[OF r] r by simp
qed

section \<open>The reader: one decoding step\<close>

lemma sbit_word: "sbit d (64 * i + j) = (i < length d \<and> bit (d ! i) j)" if "j < 64"
  using that by (simp add: sbit_def)

lemma zero_word: "(\<And>j. j < 64 \<Longrightarrow> \<not> bit w j) \<Longrightarrow> w = 0" for w :: u64
  by (rule bit_eqI) (auto dest: bit_imp_le_length)

lemma readNext_loop_found:
  assumes "c \<le> q div 64" "sbit d q" "\<And>j. 64 * c \<le> j \<Longrightarrow> j < q \<Longrightarrow> \<not> sbit d j"
  shows "readNext_loop d (d ! c) (c + 1) r =
           Some (d ! (q div 64), q div 64 + 1, r + of_nat (64 * (q div 64 - c)))"
  using assms
proof (induction "q div 64 - c" arbitrary: c r)
  case 0
  then have c: "c = q div 64" by simp
  have "d ! c \<noteq> 0" using \<open>sbit d q\<close> unfolding sbit_def c by auto
  then show ?case by (subst readNext_loop.simps) (simp add: c)
next
  case (Suc n)
  obtain qd qm where q: "q = 64 * qd + qm" "qm < 64" "q div 64 = qd" "q mod 64 = qm" by (rule word_pos)
  have lt: "c + 1 \<le> qd" using Suc.hyps(2) q(3) by simp
  have len: "qd < length d" using \<open>sbit d q\<close> by (simp add: sbit_def q(3))
  have "\<not> bit (d ! c) j" if "j < 64" for j
  proof -
    have "64 * c + j < q" using lt q(1) that by linarith
    then have "\<not> sbit d (64 * c + j)" using Suc.prems(3) by simp
    then show ?thesis using sbit_word[OF that, of d c] len lt by simp
  qed
  then have z: "d ! c = 0" by (rule zero_word)
  have n: "n = q div 64 - (c + 1)" using Suc.hyps(2) by simp
  have c1: "c + 1 \<le> q div 64" using lt q(3) by simp
  have zs: "\<And>j. 64 * (c + 1) \<le> j \<Longrightarrow> j < q \<Longrightarrow> \<not> sbit d j" using Suc.prems(3) by simp
  have e: "(64::u64) + of_nat (64 * (qd - (c + 1))) = of_nat (64 * (qd - c))"
  proof -
    have "64 * (qd - c) = 64 + 64 * (qd - (c + 1))" using lt by linarith
    then show ?thesis by simp
  qed
  have "readNext_loop d (d ! c) (c + 1) r = readNext_loop d (d ! (c + 1)) (c + 1 + 1) (r + 64)"
    using z lt len by (subst readNext_loop.simps) simp
  also have "\<dots> = Some (d ! (q div 64), q div 64 + 1, r + 64 + of_nat (64 * (q div 64 - (c + 1))))"
    by (rule Suc.hyps(1)[OF n c1 \<open>sbit d q\<close> zs])
  finally show ?case using e by (simp add: q(3) add.assoc)
qed

lemma window_bits:
  assumes "cursor_at s upos"
  shows "bit (curr_window_unary s) j =
           (int j < valid_lower_bits_unary s \<and> sbit (data s) (upos + j))"
proof -
  define p where "p = curr_ptr_unary s"
  define v where "v = nat (valid_lower_bits_unary s)"
  have c: "1 \<le> p" "p \<le> length (data s)" "v \<le> 64" "upos + v = 64 * p"
       "curr_window_unary s = drop_bit (64 - v) (data s ! (p - 1))"
       "valid_lower_bits_unary s = int v"
    using assms unfolding cursor_at_def p_def v_def by auto
  have pos: "upos + j = 64 * (p - 1) + (64 - v + j)" using c(1,3,4) by linarith
  have p1: "p - 1 < length (data s)" using c(1,2) by linarith
  show ?thesis
  proof (cases "j < v")
    case True
    then have lt: "64 - v + j < 64" using c(3) by linarith
    show ?thesis
      unfolding c(5,6) bit_drop_bit_eq pos sbit_word[OF lt] using True p1 by simp
  next
    case False
    then have "\<not> 64 - v + j < 64" using c(3) by linarith
    then have "\<not> bit (data s ! (p - 1)) (64 - v + j)" by (auto dest: bit_imp_le_length)
    then show ?thesis unfolding c(5,6) bit_drop_bit_eq using False by simp
  qed
qed

lemma readNext_unary_step:
  assumes cur: "cursor_at s upos"
    and q: "upos \<le> q" "sbit (data s) q" "\<And>j. upos \<le> j \<Longrightarrow> j < q \<Longrightarrow> \<not> sbit (data s) j"
  shows "readNext_unary s =
           Some (of_nat (q - upos), drop_bit (q mod 64 + 1) (data s ! (q div 64)), q div 64 + 1,
                 63 - int (q mod 64))"
proof -
  define d where "d = data s"
  define p where "p = curr_ptr_unary s"
  define v where "v = nat (valid_lower_bits_unary s)"
  define w where "w = curr_window_unary s"
  have c: "1 \<le> p" "p \<le> length d" "v \<le> 64" "upos + v = 64 * p"
       "w = drop_bit (64 - v) (d ! (p - 1))" "valid_lower_bits_unary s = int v"
    using cur unfolding cursor_at_def p_def v_def d_def w_def by auto
  have wb: "bit w j = (j < v \<and> sbit d (upos + j))" for j
    using window_bits[OF cur, of j] by (simp add: w_def d_def c(6))
  obtain qd qm where qq: "q = 64 * qd + qm" "qm < 64" "q div 64 = qd" "q mod 64 = qm"
    by (rule word_pos)
  have sq: "sbit d q" and zq: "\<And>j. upos \<le> j \<Longrightarrow> j < q \<Longrightarrow> \<not> sbit d j"
    using q by (simp_all add: d_def)
  show ?thesis
  proof (cases "w = 0")
    case False
    define r where "r = rho w"
    have r: "bit w r" "\<And>j. j < r \<Longrightarrow> \<not> bit w j" using rho_props[OF False] by (simp_all add: r_def)
    have rv: "r < v" and sr: "sbit d (upos + r)" using r(1) wb by auto
    have "\<not> upos + r < q" using zq[of "upos + r"] sr by auto
    moreover have "\<not> q < upos + r"
    proof
      assume lt: "q < upos + r"
      then have "q - upos < r" using q(1) by linarith
      then have "\<not> bit w (q - upos)" by (rule r(2))
      moreover have "q - upos < v" using lt rv q(1) by linarith
      ultimately show False using wb[of "q - upos"] sq q(1) by simp
    qed
    ultimately have qr: "q = upos + r" by linarith
    have "64 * (p - 1) \<le> q" "q < 64 * p" using qr rv c(1,3,4) by linarith+
    then have qd: "qd = p - 1" using qq(1,2) by linarith
    have qm: "qm + v = r + 64" using qr qq(1) qd c(1,4) by linarith
    have e1: "drop_bit 1 (drop_bit r w) = drop_bit (qm + 1) (d ! qd)"
    proof -
      have "1 + (r + (64 - v)) = qm + 1" using qm c(3) by linarith
      then show ?thesis unfolding c(5) qd by (simp add: drop_bit_drop_bit add.commute)
    qed 
    have e2: "int v - (int r + 1) = 63 - int qm" using qm by linarith
    have e3: "q - upos = r" using qr by simp
    have e4: "p = qd + 1" using qd c(1) by linarith
    show ?thesis
      using False e1 e2
      unfolding readNext_unary_def Let_def qq(3,4) e3
      by (simp add: w_def[symmetric] r_def[symmetric] d_def[symmetric] p_def[symmetric] c(6) e4)
  next
    case True
    have ge: "64 * p \<le> q"
    proof (rule ccontr)
      assume "\<not> 64 * p \<le> q"
      then have "q - upos < v" using c(4) q(1) by linarith
      then have "bit w (q - upos)" using wb[of "q - upos"] sq q(1) by simp
      then show False using True by simp
    qed
    then have pq: "p \<le> qd" using qq(1,2) by linarith
    have len: "qd < length d" using sq by (simp add: sbit_def qq(3))
    have zs: "\<not> sbit d j" if "64 * p \<le> j" "j < q" for j
    proof -
      have "upos \<le> j" using that(1) c(4) by linarith
      then show ?thesis using that(2) by (rule zq)
    qed
    have loop: "readNext_loop d (d ! p) (p + 1) (0 + word_of_int (int v)) =
                  Some (d ! qd, qd + 1, 0 + word_of_int (int v) + of_nat (64 * (qd - p)))"
      using readNext_loop_found[of p q d, OF _ sq zs] pq by (simp add: qq(3))
    have bq: "bit (d ! qd) qm" using sq by (simp add: sbit_def qq(3,4))
    have lowz: "\<not> bit (d ! qd) j" if "j < qm" for j
    proof -
      have j64: "j < 64" using that qq(2) by linarith
      have "64 * p \<le> 64 * qd + j" "64 * qd + j < q" using pq that qq(1) by linarith+
      then have "\<not> sbit d (64 * qd + j)" by (rule zs)
      then show ?thesis using sbit_word[OF j64, of d qd] len by simp
    qed
    have rho: "rho (d ! qd) = qm" using bq lowz by (rule rho_unique)
    have val: "(0 + word_of_int (int v) + of_nat (64 * (qd - p)) + of_nat qm :: u64) = of_nat (q - upos)"
    proof -
      have "q - upos = v + 64 * (qd - p) + qm" using qq(1) c(4) pq by linarith
      then show ?thesis by simp
    qed
    have plt: "p < length d" using pq len by linarith
    show ?thesis
      using True plt val loop
      unfolding readNext_unary_def Let_def qq(3,4)
      by (simp add: w_def[symmetric] d_def[symmetric] p_def[symmetric] c(6) rho
          drop_bit_drop_bit add.commute)
  qed
qed

lemma load64_bit:
  assumes "load64 d byte_off = Some fixed"
  shows "bit fixed m = (m < 64 \<and> sbit d (8 * byte_off + m))"
proof (cases "m < 64")
  case False
  then show ?thesis by (auto dest: bit_imp_le_length)
next
  case True
  obtain i r where ir: "byte_off = 8 * i + r" "r < 8" "byte_off div 8 = i" "byte_off mod 8 = r"
    using mult_div_mod_eq[of 8 byte_off] by (metis mod_less_divisor zero_less_numeral)
  have inb: "byte_off + 8 \<le> 8 * length d"
    using assms by (auto simp: load64_def split: if_splits)
  show ?thesis
  proof (cases "r = 0")
    case r0: True
    have f: "fixed = d ! i" using assms inb r0 by (simp add: load64_def ir(3,4))
    have i: "i < length d" using inb ir(1) by linarith
    have "8 * byte_off + m = 64 * i + m" using ir(1) r0 by simp
    then show ?thesis using True i sbit_word[OF True, of d i] by (simp add: f)
  next
    case False
    have f: "fixed = drop_bit (8 * r) (d ! i) OR push_bit (64 - 8 * r) (d ! (i + 1))"
      using assms inb False by (simp add: load64_def ir(3,4) Let_def)
    have i: "i + 1 < length d" using inb ir(1) False by linarith
    show ?thesis
    proof (cases "8 * r + m < 64")
      case lt: True
      have pos: "8 * byte_off + m = 64 * i + (8 * r + m)" using ir(1) by simp
      have "\<not> 64 - 8 * r \<le> m" using lt by linarith
      then have "bit fixed m = bit (d ! i) (8 * r + m)"
        unfolding f by (simp add: bit_or_iff bit_drop_bit_eq bit_push_bit_iff)
      then show ?thesis unfolding pos sbit_word[OF lt] using True i by simp
    next
      case ge: False
      define m' where "m' = 8 * r + m - 64"
      have m': "m' < 64" "m - (64 - 8 * r) = m'" "64 - 8 * r \<le> m"
        using ge True ir(2) by (simp_all add: m'_def)
      have pos: "8 * byte_off + m = 64 * (i + 1) + m'" using ir(1) ge by (simp add: m'_def)
      have "\<not> bit (d ! i) (8 * r + m)" using ge by (auto dest: bit_imp_le_length)
      then have "bit fixed m = bit (d ! (i + 1)) m'"
        unfolding f using m'(2,3) True by (simp add: bit_or_iff bit_drop_bit_eq bit_push_bit_iff)
      then show ?thesis unfolding pos sbit_word[OF m'(1)] using True i by simp
    qed
  qed
qed

lemma load64_Some: "byte_off + 8 \<le> 8 * length d \<Longrightarrow> \<exists>fixed. load64 d byte_off = Some fixed"
  by (simp add: load64_def Let_def)

lemma remainder_bits:
  assumes "load64 d (off div 8) = Some fixed"
    and "\<And>j. j < l \<Longrightarrow> sbit d (off + j) = bit v j"
  shows "drop_bit (off mod 8) fixed AND (push_bit l 1 - 1) = take_bit (min l (64 - off mod 8)) v"
proof (rule bit_eqI)
  fix j
  have pos: "8 * (off div 8) + (off mod 8 + j) = off + j" by simp
  have r8: "off mod 8 < 8" by simp
  have "bit (drop_bit (off mod 8) fixed AND (push_bit l 1 - 1)) j =
          (j < l \<and> off mod 8 + j < 64 \<and> sbit d (off + j))"
    unfolding lower_bits_eq bit_take_bit_iff bit_drop_bit_eq load64_bit[OF assms(1)] pos by auto
  also have "\<dots> = (j < min l (64 - off mod 8) \<and> bit v j)"
    using assms(2)[of j] r8 by auto
  finally show "bit (drop_bit (off mod 8) fixed AND (push_bit l 1 - 1)) j =
                  bit (take_bit (min l (64 - off mod 8)) v) j"
    by (simp add: bit_take_bit_iff)
qed

lemma cursor_after_bit:
  assumes "q div 64 < length d"
  shows "cursor_at \<lparr>data = d, curr_fixed_offset = off,
                      curr_window_unary = drop_bit (q mod 64 + 1) (d ! (q div 64)),
                      curr_ptr_unary = q div 64 + 1,
                      valid_lower_bits_unary = 63 - int (q mod 64)\<rparr> (q + 1)"
proof -
  obtain qd qm where qq: "q = 64 * qd + qm" "qm < 64" "q div 64 = qd" "q mod 64 = qm"
    by (rule word_pos)
  have "64 - nat (63 - int qm) = qm + 1" using qq(2) by linarith
  then show ?thesis
    using assms qq(1,2) unfolding cursor_at_def qq(3,4) by simp
qed

lemma readNext_step:
  assumes cur: "cursor_at s upos"
    and l: "l \<le> 63"
    and zeros: "\<And>j. j < n \<Longrightarrow> \<not> sbit (data s) (upos + j)"
    and one: "sbit (data s) (upos + n)"
    and fixed: "\<And>j. j < l \<Longrightarrow> sbit (data s) (curr_fixed_offset s + j) = bit v j"
    and inb: "curr_fixed_offset s div 8 + 8 \<le> 8 * length (data s)"
  shows "\<exists>s'. readNext s (int l) =
            Some (push_bit l (of_nat n) OR take_bit (min l (64 - curr_fixed_offset s mod 8)) v, s') \<and>
          cursor_at s' (upos + n + 1) \<and> data s' = data s \<and>
          curr_fixed_offset s' = curr_fixed_offset s + l"
proof -
  define q where "q = upos + n"
  have z: "\<not> sbit (data s) j" if "upos \<le> j" "j < q" for j
  proof -
    have "j - upos < n" "upos + (j - upos) = j" using that by (simp_all add: q_def)
    then show ?thesis using zeros[of "j - upos"] by simp
  qed
  have sq: "sbit (data s) q" using one by (simp add: q_def)
  have u: "readNext_unary s =
             Some (of_nat n, drop_bit (q mod 64 + 1) (data s ! (q div 64)), q div 64 + 1,
                   63 - int (q mod 64))"
    using readNext_unary_step[OF cur _ sq z] by (simp add: q_def)
  obtain fx where fx: "load64 (data s) (curr_fixed_offset s div 8) = Some fx"
    using load64_Some[OF inb] by blast
  note rem = remainder_bits[OF fx fixed]
  define s' where "s' = s\<lparr>curr_fixed_offset := curr_fixed_offset s + l,
                           curr_window_unary := drop_bit (q mod 64 + 1) (data s ! (q div 64)),
                           curr_ptr_unary := q div 64 + 1,
                           valid_lower_bits_unary := 63 - int (q mod 64)\<rparr>"
  have r: "readNext s (int l) =
             Some (push_bit l (of_nat n) OR take_bit (min l (64 - curr_fixed_offset s mod 8)) v, s')"
    unfolding readNext_def Let_def u using l rem by (simp add: fx s'_def)
  have len: "q div 64 < length (data s)" using sq by (simp add: sbit_def)
  have "s' = \<lparr>data = data s, curr_fixed_offset = curr_fixed_offset s + l,
               curr_window_unary = drop_bit (q mod 64 + 1) (data s ! (q div 64)),
               curr_ptr_unary = q div 64 + 1,
               valid_lower_bits_unary = 63 - int (q mod 64)\<rparr>"
    by (simp add: s'_def)
  then have "cursor_at s' (q + 1)" using cursor_after_bit[OF len] by simp
  then show ?thesis using r by (auto simp: q_def s'_def)
qed

lemma readReset_cursor:
  assumes "(bit_pos + unary_offset) div 64 < length (data s)"
  shows "\<exists>s'. readReset s bit_pos unary_offset = Some s' \<and> cursor_at s' (bit_pos + unary_offset) \<and>
           data s' = data s \<and> curr_fixed_offset s' = bit_pos"
proof -
  obtain qd qm where qq: "bit_pos + unary_offset = 64 * qd + qm" "qm < 64"
      "(bit_pos + unary_offset) div 64 = qd" "(bit_pos + unary_offset) mod 64 = qm"
    by (rule word_pos)
  have "64 - nat (64 - int qm) = qm" using qq(2) by linarith
  then show ?thesis
    using assms qq(2) unfolding readReset_def Let_def cursor_at_def qq(3,4) by (simp add: qq(1))
qed

section \<open>The layout of a sealed stream\<close>

lemma fixed_len_Cons [simp]: "fixed_len (it # its) = snd it + fixed_len its"
  by (simp add: fixed_len_def)

lemma fixed_len_Nil [simp]: "fixed_len [] = 0"
  by (simp add: fixed_len_def)

lemma unary_len_Cons [simp]: "unary_len (it # its) = unat (item_quotient it) + 1 + unary_len its"
  by (simp add: unary_len_def)

lemma unary_len_Nil [simp]: "unary_len [] = 0"
  by (simp add: unary_len_def)

lemma unary_len_bits: "unary_len its = length (unary_bits (map item_quotient its))"
  by (induction its) auto

lemma fixed_len_append: "fixed_len (xs @ ys) = fixed_len xs + fixed_len ys"
  by (simp add: fixed_len_def)

lemma unary_len_append: "unary_len (xs @ ys) = unary_len xs + unary_len ys"
  by (simp add: unary_len_def)

lemma fixed_layout_cong:
  "(\<And>k. k < off + fixed_len its \<Longrightarrow> sbit d' k = sbit d k) \<Longrightarrow>
   fixed_layout d' off its = fixed_layout d off its"
proof (induction its arbitrary: off)
  case Nil
  then show ?case by simp
next
  case (Cons it its)
  obtain v l where it: "it = (v, l)" by (cases it)
  have a: "\<And>j. j < l \<Longrightarrow> sbit d' (off + j) = sbit d (off + j)"
    using Cons.prems by (simp add: it)
  have b: "fixed_layout d' (off + l) its = fixed_layout d (off + l) its"
    using Cons.prems by (intro Cons.IH) (simp add: it add.assoc)
  show ?case unfolding it fixed_layout.simps b using a by auto
qed

lemma unary_layout_of_bits:
  "(\<And>k. B \<le> k \<Longrightarrow> sbit d k = (k - B < length (unary_bits us) \<and> unary_bits us ! (k - B))) \<Longrightarrow>
   unary_layout d B us"
proof (induction us arbitrary: B)
  case Nil
  then show ?case by simp
next
  case (Cons u us)
  have z: "\<not> sbit d (B + j)" if "j < unat u" for j
    using Cons.prems[of "B + j"] that by (simp add: nth_append)
  have o: "sbit d (B + unat u)"
    using Cons.prems[of "B + unat u"] by (simp add: nth_append)
  have "unary_layout d (B + unat u + 1) us"
  proof (rule Cons.IH)
    fix k assume k: "B + unat u + 1 \<le> k"
    define m where "m = k - (B + unat u + 1)"
    have e: "k - B = unat u + 1 + m" "B \<le> k" using k by (simp_all add: m_def)
    show "sbit d k = (k - (B + unat u + 1) < length (unary_bits us) \<and>
                      unary_bits us ! (k - (B + unat u + 1)))"
      using Cons.prems[OF e(2)] unfolding e(1) unary_Cons_shift by (simp add: m_def)
  qed
  then show ?case using z o by simp
qed

lemma appendFixedAll_post:
  assumes "zero_tail b" "\<forall>it\<in>set its. snd it \<le> 63"
  shows "\<exists>b'. appendFixedAll b its = Some b' \<and> zero_tail b' \<and>
           bit_count b' = bit_count b + fixed_len its \<and>
           (\<forall>k < bit_count b. sbit (b_data b') k = sbit (b_data b) k) \<and>
           fixed_layout (b_data b') (bit_count b) its"
  using assms
proof (induction its arbitrary: b)
  case Nil
  then show ?case by simp
next
  case (Cons it its)
  obtain v l where it: "it = (v, l)" by (cases it)
  have l: "0 \<le> int l" "int l \<le> 63" using Cons.prems(2) by (simp_all add: it)
  from appendFixed_post[OF Cons.prems(1) l, of v]
  obtain b1 where b1: "appendFixed b v (int l) = Some b1" "bit_count b1 = bit_count b + l"
    and bits1: "\<And>k. sbit (b_data b1) k =
                  (if k < bit_count b then sbit (b_data b) k
                   else k < bit_count b + l \<and> bit v (k - bit_count b))"
    by auto
  have zt1: "zero_tail b1" using appendFixed_zero_tail[OF Cons.prems(1) b1(1)] .
  have rest: "\<forall>it\<in>set its. snd it \<le> 63" using Cons.prems(2) by simp
  from Cons.IH[OF zt1 rest]
  obtain b' where b': "appendFixedAll b1 its = Some b'" "zero_tail b'"
      "bit_count b' = bit_count b1 + fixed_len its"
      "\<And>k. k < bit_count b1 \<Longrightarrow> sbit (b_data b') k = sbit (b_data b1) k"
      "fixed_layout (b_data b') (bit_count b1) its"
    by auto
  have pre: "sbit (b_data b') k = sbit (b_data b) k" if "k < bit_count b" for k
    using that b'(4)[of k] bits1[of k] b1(2) by simp
  have cur: "sbit (b_data b') (bit_count b + j) = bit v j" if "j < l" for j
    using that b'(4)[of "bit_count b + j"] bits1[of "bit_count b + j"] b1(2) by simp
  show ?case
    unfolding it using b1 b' pre cur by (simp add: add.assoc)
qed

lemma appendFixedAll_range:
  "appendFixedAll b its = Some b' \<Longrightarrow> \<forall>it\<in>set its. snd it \<le> 63"
proof (induction its arbitrary: b)
  case Nil
  then show ?case by simp
next
  case (Cons it its)
  obtain v l where it: "it = (v, l)" by (cases it)
  from Cons.prems obtain b1 where b1: "appendFixed b v (int l) = Some b1"
      "appendFixedAll b1 its = Some b'"
    by (auto simp: it split: option.splits)
  have "l \<le> 63" using appendFixed_range[OF b1(1)] by simp
  then show ?case using Cons.IH[OF b1(2)] by (simp add: it)
qed

lemma unary_write_inb:
  "unary_write us b = Some b' \<Longrightarrow> us \<noteq> [] \<Longrightarrow>
   bit_count b + length (unary_bits us) \<le> 64 * length (b_data b)"
proof (induction us arbitrary: b)
  case Nil
  then show ?case by simp
next
  case (Cons u us)
  define b1 where "b1 = \<lparr>b_data = (b_data b)[(bit_count b + unat u) div 64 :=
                              (b_data b ! ((bit_count b + unat u) div 64)) OR
                              push_bit ((bit_count b + unat u) mod 64) 1],
                          bit_count = bit_count b + unat u + 1\<rparr>"
  have inb: "(bit_count b + unat u) div 64 < length (b_data b)" and w: "unary_write us b1 = Some b'"
    using Cons.prems(1) by (auto simp: Let_def b1_def split: if_splits)
  have lt: "bit_count b + unat u < 64 * length (b_data b)"
    using inb by (simp add: div_less_iff_less_mult mult.commute)
  show ?case
  proof (cases "us = []")
    case True
    then show ?thesis using lt by simp
  next
    case False
    show ?thesis using Cons.IH[OF w False] by (simp add: b1_def)
  qed
qed

lemma unat_succ_le: "unat (u + 1) \<le> unat u + 1" for u :: u32
  by (metis add.commute le_add2 le_less_linear le_refl unatSuc unat_eq_zero Suc_eq_plus1 zero_le)

lemma unary_bit_inc_le: "unary_bit_inc us acc \<le> acc + length (unary_bits us)"
proof (induction us arbitrary: acc)
  case Nil
  then show ?case by simp
next
  case (Cons u us)
  show ?case using Cons[of "acc + unat (u + 1)"] unat_succ_le[of u] by simp
qed

lemma unary_bit_inc_wrap:
  "- 1 \<in> set us \<Longrightarrow> unary_bit_inc us acc + 2 ^ 32 \<le> acc + length (unary_bits us)"
proof (induction us arbitrary: acc)
  case Nil
  then show ?case by simp
next
  case (Cons u us)
  show ?case
  proof (cases "u = - 1")
    case True
    have "unat (- 1 :: u32) + 1 = 2 ^ 32" by (simp add: unsigned_minus_1_eq_mask mask_eq_exp_minus_1)
    then show ?thesis using unary_bit_inc_le[of us acc] True by simp
  next
    case False
    then have "- 1 \<in> set us" using Cons.prems by auto
    from Cons.IH[OF this, of "acc + unat (u + 1)"] unat_succ_le[of u]
    show ?thesis by simp
  qed
qed

lemma resize_words_upper: "64 * ((((x::nat) + 7) div 8 + 7 + 7) div 8) \<le> x + 119"
proof -
  define y where "y = (x + 7) div 8"
  have "8 * y \<le> x + 7" unfolding y_def by simp
  moreover have "8 * ((y + 7 + 7) div 8) \<le> y + 14" by simp
  ultimately show ?thesis unfolding y_def[symmetric] by linarith
qed

lemma appendUnaryAll_no_wrap:
  assumes "appendUnaryAll b us = Some b'"
  shows "- 1 \<notin> set us"
proof
  assume m: "- 1 \<in> set us"
  define n where "n = (((bit_count b + unary_bit_inc us 0 + 7) div 8) + 7 + 7) div 8"
  have w: "unary_write us (b\<lparr>b_data := resize n (b_data b)\<rparr>) = Some b'"
    using assms by (simp add: appendUnaryAll_def Let_def n_def)
  have ne: "us \<noteq> []" using m by auto
  have "bit_count b + length (unary_bits us) \<le> 64 * n"
    using unary_write_inb[OF w ne] by simp
  moreover have "64 * n \<le> bit_count b + unary_bit_inc us 0 + 119"
    unfolding n_def by (rule resize_words_upper)
  moreover have "unary_bit_inc us 0 + 2 ^ 32 \<le> length (unary_bits us)"
    using unary_bit_inc_wrap[OF m, of 0] by simp
  ultimately show False by simp
qed

lemma resize_bytes: "((B::nat) + 7) div 8 + 7 \<le> 8 * (((B + 7) div 8 + 7 + 7) div 8)"
proof -
  define y where "y = (B + 7) div 8"
  have "y + 7 + 7 < 8 * ((y + 7 + 7) div 8) + 8"
    using dividend_less_times_div[of 8 "y + 7 + 7"] by simp
  then show ?thesis unfolding y_def[symmetric] by linarith
qed

lemma encode_props:
  assumes "encode n its = Some rbv"
  shows "\<forall>it\<in>set its. snd it \<le> 63"
    and "\<forall>it\<in>set its. item_quotient it \<noteq> - 1"
    and "fixed_layout (data rbv) 0 its"
    and "unary_layout (data rbv) (fixed_len its) (map item_quotient its)"
    and "fixed_len its + unary_len its + 48 \<le> 64 * length (data rbv)"
    and "(fixed_len its + unary_len its + 7) div 8 + 7 \<le> 8 * length (data rbv)"
proof -
  from assms obtain b1 b' where b1: "appendFixedAll (Builder_new n) its = Some b1"
    and b': "appendUnaryAll b1 (map item_quotient its) = Some b'"
    and rbv: "rbv = build b'"
    by (auto simp: encode_def encode_builder_def split: option.splits)
  show r: "\<forall>it\<in>set its. snd it \<le> 63" using appendFixedAll_range[OF b1] .
  from appendFixedAll_post[OF zero_tail_new r, of n] b1
  have zt1: "zero_tail b1" and bc1: "bit_count b1 = fixed_len its"
    and fl1: "fixed_layout (b_data b1) 0 its"
    by (auto simp: Builder_new_def)
  show nw: "\<forall>it\<in>set its. item_quotient it \<noteq> - 1"
    using appendUnaryAll_no_wrap[OF b'] by force
  then have nw': "\<forall>u\<in>set (map item_quotient its). u \<noteq> - 1" by simp
  note g = appendUnaryAll_gen[OF b' zt1, unfolded bc1 unary_bit_inc_eq[OF nw', of 0]]
  have d: "data rbv = b_data b'" by (simp add: rbv build_def RiceBitVector_new_def trimToFit_def)
  have "fixed_layout (b_data b') 0 its = fixed_layout (b_data b1) 0 its"
    by (rule fixed_layout_cong) (simp add: g(3))
  then show "fixed_layout (data rbv) 0 its" using fl1 d by simp
  have "unary_layout (b_data b') (fixed_len its) (map item_quotient its)"
    by (rule unary_layout_of_bits) (simp add: g(3))
  then show "unary_layout (data rbv) (fixed_len its) (map item_quotient its)" using d by simp
  have len: "length (data rbv) = (((fixed_len its + unary_len its + 7) div 8) + 7 + 7) div 8"
    using g(2) d by (simp add: unary_len_bits)
  show "fixed_len its + unary_len its + 48 \<le> 64 * length (data rbv)"
    unfolding len by (rule resize_words)
  show "(fixed_len its + unary_len its + 7) div 8 + 7 \<le> 8 * length (data rbv)"
    unfolding len by (rule resize_bytes)
qed

lemma encode_Some:
  assumes "\<forall>it\<in>set its. snd it \<le> 63" "\<forall>it\<in>set its. item_quotient it \<noteq> - 1"
  shows "\<exists>rbv. encode n its = Some rbv"
proof -
  from appendFixedAll_post[OF zero_tail_new assms(1), of n]
  obtain b1 where b1: "appendFixedAll (Builder_new n) its = Some b1" by auto
  have "\<forall>u\<in>set (map item_quotient its). u \<noteq> - 1" using assms(2) by simp
  from appendUnaryAll_Some[OF this, of b1]
  obtain b' where "appendUnaryAll b1 (map item_quotient its) = Some b'" by auto
  then show ?thesis using b1 by (simp add: encode_def encode_builder_def)
qed

section \<open>Decoding a laid-out stream\<close>

lemma decode_layout:
  assumes "cursor_at s upos"
    and "fixed_layout (data s) (curr_fixed_offset s) its"
    and "unary_layout (data s) upos (map item_quotient its)"
    and "\<forall>it\<in>set its. snd it \<le> 63"
    and "its \<noteq> [] \<Longrightarrow> (curr_fixed_offset s + fixed_len its) div 8 + 8 \<le> 8 * length (data s)"
  shows "\<exists>s'. readNexts s (map snd its) = Some (expected (curr_fixed_offset s) its, s') \<and>
           cursor_at s' (upos + unary_len its) \<and> data s' = data s \<and>
           curr_fixed_offset s' = curr_fixed_offset s + fixed_len its"
  using assms
proof (induction its arbitrary: s upos)
  case Nil
  then show ?case by simp
next
  case (Cons it its)
  obtain v l where it: "it = (v, l)" by (cases it)
  define n where "n = unat (item_quotient it)"
  have l: "l \<le> 63" using Cons.prems(4) by (simp add: it)
  have zeros: "\<And>j. j < n \<Longrightarrow> \<not> sbit (data s) (upos + j)"
    and one: "sbit (data s) (upos + n)"
    and ul: "unary_layout (data s) (upos + n + 1) (map item_quotient its)"
    using Cons.prems(3) by (simp_all add: n_def)
  have fx: "\<And>j. j < l \<Longrightarrow> sbit (data s) (curr_fixed_offset s + j) = bit v j"
    and fl: "fixed_layout (data s) (curr_fixed_offset s + l) its"
    using Cons.prems(2) by (simp_all add: it)
  have bound: "(curr_fixed_offset s + fixed_len (it # its)) div 8 + 8 \<le> 8 * length (data s)"
    using Cons.prems(5) by simp
  have "curr_fixed_offset s div 8 \<le> (curr_fixed_offset s + fixed_len (it # its)) div 8"
    by (rule div_le_mono) simp
  then have inb: "curr_fixed_offset s div 8 + 8 \<le> 8 * length (data s)" using bound by linarith
  from readNext_step[OF Cons.prems(1) l zeros one fx inb]
  obtain s1 where s1: "readNext s (int l) =
        Some (push_bit l (of_nat n) OR take_bit (min l (64 - curr_fixed_offset s mod 8)) v, s1)"
      "cursor_at s1 (upos + n + 1)" "data s1 = data s"
      "curr_fixed_offset s1 = curr_fixed_offset s + l"
    by blast
  have val: "push_bit l (of_nat n) OR take_bit (min l (64 - curr_fixed_offset s mod 8)) v =
               decoded (curr_fixed_offset s) it"
    by (simp add: decoded_def it n_def)
  have b1: "its \<noteq> [] \<Longrightarrow> (curr_fixed_offset s1 + fixed_len its) div 8 + 8 \<le> 8 * length (data s1)"
    using bound by (simp add: s1(3,4) it add.assoc)
  have rest: "\<forall>it\<in>set its. snd it \<le> 63" using Cons.prems(4) by simp
  from Cons.IH[OF s1(2) _ _ rest b1] fl ul
  obtain s' where s': "readNexts s1 (map snd its) = Some (expected (curr_fixed_offset s1) its, s')"
      "cursor_at s' (upos + n + 1 + unary_len its)" "data s' = data s1"
      "curr_fixed_offset s' = curr_fixed_offset s1 + fixed_len its"
    unfolding s1(3,4) by blast
  have e: "upos + n + 1 + unary_len its = upos + unary_len (it # its)" by (simp add: n_def)
  show ?case
    using s1(1) s' unfolding val e
    by (simp add: it s1(3,4) add.assoc)
qed

section \<open>Round trip and reset\<close>

lemma start_bound:
  assumes "its \<noteq> []"
    and "(fixed_len its + unary_len its + 7) div 8 + 7 \<le> 8 * L"
  shows "fixed_len its div 8 + 8 \<le> 8 * L"
proof -
  have "1 \<le> unary_len its" using assms(1) by (cases its) simp_all
  then have "(fixed_len its + 8) div 8 \<le> (fixed_len its + unary_len its + 7) div 8"
    by (intro div_le_mono) linarith
  then show ?thesis using assms(2) by simp
qed

lemma ucast_quotient:
  assumes "drop_bit l v < (2 ^ 32 - 1 :: u64)"
  shows "item_quotient (v, l) \<noteq> - 1" and "(ucast (item_quotient (v, l)) :: u64) = drop_bit l v"
proof -
  define x where "x = drop_bit l v"
  have "x < 2 ^ 32" using assms unfolding x_def by (simp add: word_less_nat_alt)
  then have t: "take_bit 32 x = x" using less_mask_eq[of x 32] by (simp add: take_bit_eq_mask)
  have ucuc: "(ucast (ucast x :: u32) :: u64) = x"
  proof (rule bit_eqI)
    fix j
    have "bit x j \<Longrightarrow> j < 32" using t by (metis bit_take_bit_iff)
    then show "bit (ucast (ucast x :: u32) :: u64) j = bit x j"
      by (auto simp: bit_ucast_iff dest: bit_imp_le_length)
  qed
  then show "(ucast (item_quotient (v, l)) :: u64) = drop_bit l v"
    by (simp add: item_quotient_def x_def)
  show "item_quotient (v, l) \<noteq> - 1"
  proof
    assume "item_quotient (v, l) = - 1"
    then have "(ucast (ucast x :: u32) :: u64) = ucast (- 1 :: u32)"
      by (simp add: item_quotient_def x_def)
    then have "x = 2 ^ 32 - 1"
      unfolding ucuc by (simp add: unsigned_minus_1_eq_mask mask_eq_exp_minus_1)
    then show False using assms by (simp add: x_def)
  qed
qed

lemma push_drop_take: "push_bit l (drop_bit l v) OR take_bit l v = v" for v :: u64
  by (rule bit_eqI) (auto simp: bit_or_iff bit_push_bit_iff bit_drop_bit_eq bit_take_bit_iff
      dest: bit_imp_le_length)

lemma expected_exact:
  assumes "fits_load off its" "\<forall>it\<in>set its. drop_bit (snd it) (fst it) < (2 ^ 32 - 1 :: u64)"
  shows "expected off its = map fst its"
  using assms
proof (induction its arbitrary: off)
  case Nil
  then show ?case by simp
next
  case (Cons it its)
  obtain v l where it: "it = (v, l)" by (cases it)
  have q: "(ucast (item_quotient (v, l)) :: u64) = drop_bit l v"
    using Cons.prems(2) by (intro ucast_quotient(2)) (simp add: it)
  define r where "r = off mod 8"
  have "l + r \<le> 64" using Cons.prems(1) by (simp add: it r_def)
  then have "min l (64 - r) = l" by linarith
  then have m: "min l (64 - off mod 8) = l" by (simp add: r_def)
  have "decoded off it = v" by (simp add: decoded_def it q m push_drop_take)
  then show ?case using Cons by (simp add: it)
qed

lemma decode_sealed:
  assumes enc: "encode n its = Some rbv"
  shows "\<exists>s0 s1. readReset rbv 0 (fixed_len its) = Some s0 \<and>
           readNexts s0 (map snd its) = Some (expected 0 its, s1)"
proof -
  note p = encode_props[OF enc]
  have "(0 + fixed_len its) div 64 < length (data rbv)"
    using p(5) by (simp add: div_less_iff_less_mult mult.commute)
  from readReset_cursor[OF this]
  obtain s0 where s0: "readReset rbv 0 (fixed_len its) = Some s0" "cursor_at s0 (fixed_len its)"
      "data s0 = data rbv" "curr_fixed_offset s0 = 0"
    by auto
  have b: "its \<noteq> [] \<Longrightarrow> (curr_fixed_offset s0 + fixed_len its) div 8 + 8 \<le> 8 * length (data s0)"
    using start_bound[OF _ p(6)] by (simp add: s0(3,4))
  from decode_layout[OF s0(2) _ _ p(1) b] p(3,4)
  obtain s1 where "readNexts s0 (map snd its) = Some (expected 0 its, s1)"
    unfolding s0(3,4) by auto
  then show ?thesis using s0(1) by blast
qed

text \<open>
  C1 as stated: every sequence of pairs with \<open>v < 2 ^ 64\<close> and \<open>l \<in> [0, 63]\<close> round-trips.
  The items \<open>(0, 2)\<close> and \<open>(2 ^ 62, 63)\<close> do not: the 63-bit remainder of the second item
  starts at stream bit 2, the 8 bytes read for it end at stream bit 63, and its bit 62
  (stream bit 64) is lost. The single item \<open>(2 ^ 32, 0)\<close> does not either: its quotient
  \<open>2 ^ 32\<close> does not fit the \<open>uint32_t\<close> elements of the argument of \<open>appendUnaryAll\<close>.
\<close>

theorem C1_round_trip_counterexample:
  "round_trip 16 [(0, 2), (4611686018427387904, 63)] \<noteq>
     Some (map fst [(0, 2), (4611686018427387904, 63)]) \<and>
   round_trip 16 [(4294967296, 0)] \<noteq> Some (map fst [(4294967296, 0)])"
  by code_simp

text \<open>
  C1, amended: for every finite sequence of pairs \<open>(v, l)\<close> with \<open>l \<in> [0, 63]\<close> whose
  remainders each lie within the 8 bytes \<open>readNext\<close> reads (\<open>l + F mod 8 \<le> 64\<close>, with \<open>F\<close>
  the sum of the earlier \<open>l\<close>; always so when \<open>l \<le> 57\<close>) and whose quotients \<open>v >> l\<close> are
  below \<open>2 ^ 32 - 1\<close>, the round trip through a fresh builder, one \<open>appendFixed\<close> per item,
  one \<open>appendUnaryAll\<close> with the quotients, \<open>build()\<close>, \<open>readReset(0, F)\<close> and one
  \<open>readNext\<close> per item returns exactly the values, in order.
\<close>

theorem C1_round_trip:
  assumes "\<forall>it\<in>set its. snd it \<le> 63"
    and "\<forall>it\<in>set its. drop_bit (snd it) (fst it) < (2 ^ 32 - 1 :: u64)"
    and "fits_load 0 its"
  shows "round_trip n its = Some (map fst its)"
proof -
  have "\<forall>it\<in>set its. item_quotient it \<noteq> - 1"
    using assms(2) ucast_quotient(1) by (metis prod.collapse)
  from encode_Some[OF assms(1) this, of n]
  obtain rbv where enc: "encode n its = Some rbv" by blast
  from decode_sealed[OF enc] show ?thesis
    by (auto simp: round_trip_def enc expected_exact[OF assms(3,2)])
qed

theorem C1_round_trip_witness:
  "round_trip 16 [(3, 2), (9, 2), (1000000, 57)] = Some [3, 9, 1000000]"
  using C1_round_trip[of "[(3, 2), (9, 2), (1000000, 57)]" 16] by simp

lemma fits_load_small: "\<forall>it\<in>set its. snd it \<le> 57 \<Longrightarrow> fits_load off its"
proof (induction its arbitrary: off)
  case Nil
  then show ?case by simp
next
  case (Cons it its)
  define r where "r = off mod 8"
  have "r < 8" by (simp add: r_def)
  moreover have "snd it \<le> 57" using Cons.prems by simp
  ultimately have "snd it + r \<le> 64" by linarith
  then show ?case using Cons by (simp add: r_def)
qed

lemma fixed_layout_append:
  "fixed_layout d off (xs @ ys) =
     (fixed_layout d off xs \<and> fixed_layout d (off + fixed_len xs) ys)"
proof (induction xs arbitrary: off)
  case Nil
  then show ?case by simp
next
  case (Cons it xs)
  obtain v l where it: "it = (v, l)" by (cases it)
  show ?case by (simp add: it Cons add.assoc)
qed

lemma unary_layout_append:
  "unary_layout d upos (map item_quotient (xs @ ys)) =
     (unary_layout d upos (map item_quotient xs) \<and>
      unary_layout d (upos + unary_len xs) (map item_quotient ys))"
proof (induction xs arbitrary: upos)
  case Nil
  then show ?case by simp
next
  case (Cons it xs)
  have e: "upos + unat (item_quotient it) + 1 + unary_len xs = upos + unary_len (it # xs)" by simp
  show ?case unfolding list.map append_Cons unary_layout.simps Cons e by auto
qed

lemma expected_append:
  "expected off (xs @ ys) = expected off xs @ expected (off + fixed_len xs) ys"
  by (induction xs arbitrary: off) (simp_all add: add.assoc)

lemma length_expected [simp]: "length (expected off xs) = length xs"
  by (induction xs arbitrary: off) simp_all

lemma expected_drop: "drop i (expected 0 its) = expected (fixed_len (take i its)) (drop i its)"
proof -
  have "expected 0 its = expected 0 (take i its @ drop i its)" by simp
  also have "\<dots> = expected 0 (take i its) @ expected (fixed_len (take i its)) (drop i its)"
    by (simp only: expected_append add_0)
  finally show ?thesis by (simp add: min_def)
qed

lemma decode_from_boundary:
  assumes enc: "encode n its = Some rbv"
    and pos: "bit_pos = fixed_len (take i its)"
       "bit_pos + unary_offset = fixed_len its + unary_len (take i its)"
  shows "\<exists>s s2. readReset rbv bit_pos unary_offset = Some s \<and>
           cursor_at s (bit_pos + unary_offset) \<and> data s = data rbv \<and>
           curr_fixed_offset s = bit_pos \<and>
           readNexts s (map snd (drop i its)) = Some (drop i (expected 0 its), s2)"
proof -
  note p = encode_props[OF enc]
  have split: "its = take i its @ drop i its" by simp
  have F: "fixed_len its = fixed_len (take i its) + fixed_len (drop i its)"
    using fixed_len_append[of "take i its" "drop i its"] by simp
  have U: "unary_len its = unary_len (take i its) + unary_len (drop i its)"
    using unary_len_append[of "take i its" "drop i its"] by simp
  have "bit_pos + unary_offset < 64 * length (data rbv)" using p(5) pos(2) U by linarith
  then have "(bit_pos + unary_offset) div 64 < length (data rbv)"
    by (simp add: div_less_iff_less_mult mult.commute)
  from readReset_cursor[OF this]
  obtain s where s: "readReset rbv bit_pos unary_offset = Some s"
      "cursor_at s (bit_pos + unary_offset)" "data s = data rbv" "curr_fixed_offset s = bit_pos"
    by auto
  have fl: "fixed_layout (data rbv) bit_pos (drop i its)"
    using p(3) fixed_layout_append[of "data rbv" 0 "take i its" "drop i its"] by (simp add: pos(1))
  have ul: "unary_layout (data rbv) (bit_pos + unary_offset) (map item_quotient (drop i its))"
    using p(4) unary_layout_append[of "data rbv" "fixed_len its" "take i its" "drop i its"]
    by (simp add: pos(2))
  have r: "\<forall>it\<in>set (drop i its). snd it \<le> 63" using p(1) by (meson in_set_dropD)
  have b: "(curr_fixed_offset s + fixed_len (drop i its)) div 8 + 8 \<le> 8 * length (data s)"
    if "drop i its \<noteq> []"
  proof -
    have "its \<noteq> []" using that by auto
    from start_bound[OF this p(6)] show ?thesis by (simp add: s(3,4) pos(1) F)
  qed
  from decode_layout[OF s(2) _ _ r b] fl ul
  obtain s2 where "readNexts s (map snd (drop i its)) =
                     Some (expected bit_pos (drop i its), s2)"
    unfolding s(3,4) by auto
  then show ?thesis using s by (auto simp: expected_drop pos(1))
qed

text \<open>
  C4: for a sealed stream and a pair \<open>(bitPos, unaryOffset)\<close> at the boundary before item
  \<open>i\<close> (\<open>bitPos\<close> the fixed bits of the items before \<open>i\<close>, \<open>bitPos + unaryOffset\<close> the position
  of the unary code of item \<open>i\<close>), \<open>readReset(bitPos, unaryOffset)\<close> returns, sets the fixed
  cursor to \<open>bitPos\<close>, loads the window from the word holding bit \<open>bitPos + unaryOffset\<close>
  shifted right so that this bit is bit 0, sets \<open>valid_lower_bits_unary\<close> to
  \<open>64 - ((bitPos + unaryOffset) mod 64)\<close>, and the following \<open>readNext\<close> calls return for the
  items \<open>i, i + 1, ...\<close> the values that sequential decoding from the start returns for them.
\<close>

theorem C4_reset:
  assumes "encode n its = Some rbv"
    and "bit_pos = fixed_len (take i its)"
    and "bit_pos + unary_offset = fixed_len its + unary_len (take i its)"
  shows "\<exists>s s2 s0 vs s1.
           readReset rbv bit_pos unary_offset = Some s \<and>
           curr_fixed_offset s = bit_pos \<and>
           curr_window_unary s =
             drop_bit ((bit_pos + unary_offset) mod 64) (data rbv ! ((bit_pos + unary_offset) div 64)) \<and>
           valid_lower_bits_unary s = 64 - int ((bit_pos + unary_offset) mod 64) \<and>
           readReset rbv 0 (fixed_len its) = Some s0 \<and>
           readNexts s0 (map snd its) = Some (vs, s1) \<and>
           readNexts s (map snd (drop i its)) = Some (drop i vs, s2)"
proof -
  from decode_from_boundary[OF assms]
  obtain s s2 where s: "readReset rbv bit_pos unary_offset = Some s"
      "readNexts s (map snd (drop i its)) = Some (drop i (expected 0 its), s2)"
    by blast
  from decode_sealed[OF assms(1)]
  obtain s0 s1 where s0: "readReset rbv 0 (fixed_len its) = Some s0"
      "readNexts s0 (map snd its) = Some (expected 0 its, s1)"
    by blast
  have f: "curr_fixed_offset s = bit_pos"
      "curr_window_unary s =
         drop_bit ((bit_pos + unary_offset) mod 64) (data rbv ! ((bit_pos + unary_offset) div 64))"
      "valid_lower_bits_unary s = 64 - int ((bit_pos + unary_offset) mod 64)"
    using s(1) by (auto simp: readReset_def Let_def split: if_splits)
  show ?thesis using s s0 f by blast
qed

section \<open>Skipping is decoding without the values\<close>

lemma readNext_loop_skip:
  "readNext_loop d x c r = Some (w', p', r') \<Longrightarrow> 1 \<le> m \<Longrightarrow>
   skipSubtree_loop d x c m 64 = skipSubtree_loop d w' p' m 64 \<and> w' \<noteq> 0 \<and> c \<le> p'"
proof (induction d x c r rule: readNext_loop.induct)
  case (1 d window ptr result)
  show ?case
  proof (cases "window = 0")
    case False
    then show ?thesis using "1.prems"(1) by (subst (asm) readNext_loop.simps) simp
  next
    case True
    have inb: "ptr < length d"
      using "1.prems"(1) True by (subst (asm) readNext_loop.simps) (simp split: if_splits)
    have rec: "readNext_loop d (d ! ptr) (ptr + 1) (result + 64) = Some (w', p', r')"
      using "1.prems"(1) True inb by (subst (asm) readNext_loop.simps) simp
    have "skipSubtree_loop d window ptr m 64 = skipSubtree_loop d (d ! ptr) (ptr + 1) m 64"
      using True inb "1.prems"(2) by (subst skipSubtree_loop.simps) simp
    then show ?thesis using "1.IH"[OF True inb rec "1.prems"(2)] by simp
  qed
qed

lemma skip_one_nonzero:
  assumes "w \<noteq> 0"
  shows "skipSubtree_unary d w p v 1 =
           Some (drop_bit 1 (drop_bit (rho w) w), p, v - (int (rho w) + 1))"
proof -
  have "\<not> nu w < 1" using nu_pos[OF assms] by simp
  then have "skipSubtree_loop d w p 1 v = Some (w, p, 1, v)"
    by (subst skipSubtree_loop.simps) simp
  then show ?thesis by (simp add: skipSubtree_unary_def Let_def select64_0[OF assms])
qed

lemma skip_more_nonzero:
  assumes "w \<noteq> 0" "1 \<le> n"
  shows "skipSubtree_unary d w p v (Suc n) =
           skipSubtree_unary d (drop_bit 1 (drop_bit (rho w) w)) p (v - (int (rho w) + 1)) n"
proof -
  define r where "r = rho w"
  define w' where "w' = drop_bit 1 (drop_bit r w)"
  have w': "w' = drop_bit (r + 1) w" by (simp add: w'_def drop_bit_drop_bit add.commute)
  have nu: "nu w = Suc (nu w')" unfolding w' r_def by (rule nu_drop_rho[OF assms(1)])
  show ?thesis
  proof (cases "nu w < Suc n")
    case True
    then have lt: "nu w' < n" using nu by simp
    have e: "Suc n - nu w = n - nu w'" using nu by simp
    have "skipSubtree_loop d w p (Suc n) v = skipSubtree_loop d w' p n (v - (int r + 1))"
      using True lt by (subst skipSubtree_loop.simps, subst (2) skipSubtree_loop.simps) (simp add: e)
    then show ?thesis by (simp add: skipSubtree_unary_def r_def w'_def)
  next
    case False
    then have ge: "\<not> nu w' < n" using nu by simp
    have l1: "skipSubtree_loop d w p (Suc n) v = Some (w, p, Suc n, v)"
      using False by (subst skipSubtree_loop.simps) simp
    have l2: "skipSubtree_loop d w' p n (v - (int r + 1)) = Some (w', p, n, v - (int r + 1))"
      using ge by (subst skipSubtree_loop.simps) simp
    obtain k where k: "n = Suc k" using assms(2) by (cases n) auto
    have "Suc k < nu w" using False k by simp
    from select64_Suc[OF assms(1) this]
    have sel: "select64 w n = r + 1 + select64 w' k" by (simp add: k r_def w')
    have d: "drop_bit 1 (drop_bit (select64 w n) w) = drop_bit 1 (drop_bit (select64 w' k) w')"
      unfolding sel w' by (simp add: drop_bit_drop_bit ac_simps)
    show ?thesis
      unfolding skipSubtree_unary_def r_def[symmetric] w'_def[symmetric] l1 l2
      using d sel by (simp add: k Let_def)
  qed
qed

lemma skip_after_read:
  assumes "readNext_unary s = Some (r, w1, p1, v1)"
  shows "skipSubtree_unary (data s) (curr_window_unary s) (curr_ptr_unary s)
           (valid_lower_bits_unary s) 1 = Some (w1, p1, v1)"
    and "1 \<le> n \<Longrightarrow>
         skipSubtree_unary (data s) (curr_window_unary s) (curr_ptr_unary s)
           (valid_lower_bits_unary s) (Suc n) = skipSubtree_unary (data s) w1 p1 v1 n"
proof -
  define d where "d = data s"
  define w where "w = curr_window_unary s"
  define p where "p = curr_ptr_unary s"
  define v where "v = valid_lower_bits_unary s"
  have "\<exists>w' p' v'. w' \<noteq> 0 \<and>
          w1 = drop_bit 1 (drop_bit (rho w') w') \<and> p1 = p' \<and> v1 = v' - (int (rho w') + 1) \<and>
          (\<forall>m\<ge>1. skipSubtree_unary d w p v m = skipSubtree_unary d w' p' v' m)"
  proof (cases "w = 0")
    case False
    then show ?thesis
      using assms unfolding readNext_unary_def Let_def
      by (auto simp: w_def p_def v_def)
  next
    case True
    from assms True obtain w' p' r' where inb: "p < length d"
      and lp: "readNext_loop d (d ! p) (p + 1) (0 + word_of_int v) = Some (w', p', r')"
      and res: "w1 = drop_bit 1 (drop_bit (rho w') w')" "p1 = p'" "v1 = 64 - (int (rho w') + 1)"
      unfolding readNext_unary_def Let_def
      by (auto simp: w_def p_def v_def d_def split: if_splits option.splits)
    have "skipSubtree_unary d w p v m = skipSubtree_unary d w' p' 64 m" if "1 \<le> m" for m
    proof -
      have "skipSubtree_loop d w p m v = skipSubtree_loop d (d ! p) (p + 1) m 64"
        using True inb that by (subst skipSubtree_loop.simps) simp
      also have "\<dots> = skipSubtree_loop d w' p' m 64"
        using readNext_loop_skip[OF lp that] by simp
      finally show ?thesis by (simp add: skipSubtree_unary_def)
    qed
    moreover have "w' \<noteq> 0" using readNext_loop_skip[OF lp, of 1] by simp
    ultimately show ?thesis using res by blast
  qed
  then obtain w' p' v' where x: "w' \<noteq> 0" "w1 = drop_bit 1 (drop_bit (rho w') w')" "p1 = p'"
      "v1 = v' - (int (rho w') + 1)"
      "\<And>m. 1 \<le> m \<Longrightarrow> skipSubtree_unary d w p v m = skipSubtree_unary d w' p' v' m"
    by blast
  show "skipSubtree_unary (data s) (curr_window_unary s) (curr_ptr_unary s)
           (valid_lower_bits_unary s) 1 = Some (w1, p1, v1)"
    using x(5)[of 1] skip_one_nonzero[OF x(1), of d p' v'] x(2,3,4)
    by (simp add: d_def w_def p_def v_def)
  show "skipSubtree_unary (data s) (curr_window_unary s) (curr_ptr_unary s)
           (valid_lower_bits_unary s) (Suc n) = skipSubtree_unary (data s) w1 p1 v1 n" if "1 \<le> n"
    using x(5)[of "Suc n"] skip_more_nonzero[OF x(1) that, of d p' v'] x(2,3,4)
    by (simp add: d_def w_def p_def v_def)
qed

lemma readNext_parts:
  assumes "readNext s (int l) = Some (v, s')"
  shows "\<exists>r w1 p1 v1. readNext_unary s = Some (r, w1, p1, v1) \<and>
           s' = s\<lparr>curr_fixed_offset := curr_fixed_offset s + l, curr_window_unary := w1,
                  curr_ptr_unary := p1, valid_lower_bits_unary := v1\<rparr>"
  using assms unfolding readNext_def Let_def
  by (auto split: if_splits option.splits)

lemma skip_equals_reads:
  "readNexts s ls = Some (vs, s') \<Longrightarrow> ls \<noteq> [] \<Longrightarrow>
   skipSubtree s (length ls) (sum_list ls) = Some s'"
proof (induction ls arbitrary: s vs)
  case Nil
  then show ?case by simp
next
  case (Cons l ls)
  from Cons.prems(1) obtain v s1 vs' where r1: "readNext s (int l) = Some (v, s1)"
    and rest: "readNexts s1 ls = Some (vs', s')"
    by (auto split: option.splits)
  from readNext_parts[OF r1] obtain r w1 p1 v1 where u: "readNext_unary s = Some (r, w1, p1, v1)"
    and s1: "s1 = s\<lparr>curr_fixed_offset := curr_fixed_offset s + l, curr_window_unary := w1,
                     curr_ptr_unary := p1, valid_lower_bits_unary := v1\<rparr>"
    by blast
  show ?case
  proof (cases "ls = []")
    case True
    then have "s' = s1" using rest by simp
    then show ?thesis using True skip_after_read(1)[OF u] by (simp add: skipSubtree_def s1)
  next
    case False
    then have n: "1 \<le> length ls" by (cases ls) auto
    note IH = Cons.IH[OF rest False]
    have "skipSubtree s (Suc (length ls)) (l + sum_list ls) = skipSubtree s1 (length ls) (sum_list ls)"
      using n False skip_after_read(2)[OF u n]
      by (simp add: skipSubtree_def s1 add.assoc split: option.splits)
    then show ?thesis using IH by simp
  qed
qed

lemma readNexts_append:
  "readNexts s (xs @ ys) =
     (case readNexts s xs of
        None \<Rightarrow> None
      | Some (vs1, s1) \<Rightarrow>
          (case readNexts s1 ys of None \<Rightarrow> None | Some (vs2, s2) \<Rightarrow> Some (vs1 @ vs2, s2)))"
  by (induction xs arbitrary: s) (auto split: option.splits)

lemma encode_example:
  "encode 16 [(3, 2), (9, 2)] =
     Some \<lparr>data = [151], curr_fixed_offset = 0, curr_window_unary = 0, curr_ptr_unary = 0,
           valid_lower_bits_unary = 0\<rparr>"
  by code_simp

lemma scenario_reader_eq:
  "scenario_reader =
     Some \<lparr>data = [151], curr_fixed_offset = 0, curr_window_unary = 9, curr_ptr_unary = 1,
           valid_lower_bits_unary = 60\<rparr>"
  by code_simp

text \<open>Witness of C4: the boundary before item 1 of the example stream.\<close>

theorem C4_reset_witness:
  "\<exists>s s2 s0 vs s1.
     readReset \<lparr>data = [151], curr_fixed_offset = 0, curr_window_unary = 0, curr_ptr_unary = 0,
                valid_lower_bits_unary = 0\<rparr> 2 3 = Some s \<and>
     curr_fixed_offset s = 2 \<and>
     curr_window_unary s = drop_bit 5 151 \<and>
     valid_lower_bits_unary s = 59 \<and>
     readReset \<lparr>data = [151], curr_fixed_offset = 0, curr_window_unary = 0, curr_ptr_unary = 0,
                valid_lower_bits_unary = 0\<rparr> 0 4 = Some s0 \<and>
     readNexts s0 [2, 2] = Some (vs, s1) \<and>
     readNexts s [2] = Some (drop 1 vs, s2)"
  using C4_reset[OF encode_example, of 2 1 3]
  by (simp add: fixed_len_def unary_len_def item_quotient_def)

text \<open>
  C3 as stated: the equivalence holds for all \<open>k, m \<ge> 0\<close>. For \<open>k = 0\<close> (and \<open>m = 0\<close>) it does
  not: \<open>skipSubtree(0, 0)\<close> fails its \<open>assert(nodes > 0)\<close>, while decoding no item returns
  the cursor unchanged.
\<close>

theorem C3_skip_zero_counterexample:
  "scenario_reader \<noteq> None \<and>
   Option.bind scenario_reader (\<lambda>s. skipSubtree s 0 0) = None \<and>
   Option.bind scenario_reader (\<lambda>s. map_option snd (readNexts s [])) = scenario_reader"
  by (simp add: scenario_reader_eq skipSubtree_def)

text \<open>
  C3, amended: for every sealed stream of \<open>n\<close> items and all \<open>k \<ge> 1\<close>, \<open>m \<ge> 0\<close> with
  \<open>k + m \<le> n\<close>, \<open>skipSubtree(k, F_k)\<close> from the start-of-stream cursor (\<open>F_k\<close> the sum of the
  first \<open>k\<close> parameters) returns the very cursor state \<open>s1\<close> that decoding the first \<open>k\<close>
  items with \<open>readNext\<close> leaves, so decoding \<open>m\<close> items after it yields the same \<open>m\<close> values
  and the same final cursor; \<open>skipSubtree\<close> returns a cursor and no value.
\<close>

theorem C3_skip_equivalence:
  assumes "encode n its = Some rbv" and "1 \<le> k" and "k + m \<le> length its"
  shows "\<exists>s0 vs1 s1 vs2 s2.
           readReset rbv 0 (fixed_len its) = Some s0 \<and>
           readNexts s0 (map snd (take k its)) = Some (vs1, s1) \<and>
           readNexts s1 (map snd (take m (drop k its))) = Some (vs2, s2) \<and>
           skipSubtree s0 k (fixed_len (take k its)) = Some s1 \<and>
           Option.bind (skipSubtree s0 k (fixed_len (take k its)))
             (\<lambda>t. readNexts t (map snd (take m (drop k its)))) = Some (vs2, s2)"
proof -
  from decode_sealed[OF assms(1)]
  obtain s0 sf where s0: "readReset rbv 0 (fixed_len its) = Some s0"
    and all: "readNexts s0 (map snd its) = Some (expected 0 its, sf)"
    by blast
  have "its = take k its @ take m (drop k its) @ drop (k + m) its"
    by (metis append_take_drop_id drop_drop add.commute)
  then have "map snd its = map snd (take k its) @ map snd (take m (drop k its)) @
                            map snd (drop (k + m) its)"
    by (metis map_append)
  with all obtain vs1 s1 vs2 s2 where r1: "readNexts s0 (map snd (take k its)) = Some (vs1, s1)"
    and r2: "readNexts s1 (map snd (take m (drop k its))) = Some (vs2, s2)"
    by (auto simp: readNexts_append split: option.splits)
  have ne: "map snd (take k its) \<noteq> []" using assms(2,3) by (cases its) auto
  have len: "length (map snd (take k its)) = k" using assms(3) by simp
  have "skipSubtree s0 k (fixed_len (take k its)) = Some s1"
    using skip_equals_reads[OF r1 ne] unfolding len by (simp add: fixed_len_def)
  then show ?thesis using s0 r1 r2 by simp
qed

theorem C3_skip_equivalence_witness:
  "\<exists>s0 vs1 s1 vs2 s2.
     readReset \<lparr>data = [151], curr_fixed_offset = 0, curr_window_unary = 0, curr_ptr_unary = 0,
                valid_lower_bits_unary = 0\<rparr> 0 4 = Some s0 \<and>
     readNexts s0 [2] = Some (vs1, s1) \<and>
     readNexts s1 [2] = Some (vs2, s2) \<and>
     skipSubtree s0 1 2 = Some s1 \<and>
     Option.bind (skipSubtree s0 1 2) (\<lambda>t. readNexts t [2]) = Some (vs2, s2)"
  using C3_skip_equivalence[OF encode_example, of 1 1]
  by (simp add: fixed_len_def)

section \<open>The cursor invariant\<close>

lemma take_bit_self_iff: "take_bit n w = w \<longleftrightarrow> (\<forall>j. bit w j \<longrightarrow> j < n)" for w :: u64
proof
  assume e: "take_bit n w = w"
  show "\<forall>j. bit w j \<longrightarrow> j < n"
  proof (intro allI impI)
    fix j assume "bit w j"
    then have "bit (take_bit n w) j" using e by simp
    then show "j < n" by (simp add: bit_take_bit_iff)
  qed
next
  assume "\<forall>j. bit w j \<longrightarrow> j < n"
  then show "take_bit n w = w" by (intro bit_eqI) (auto simp: bit_take_bit_iff)
qed

lemma inv_after_bit:
  assumes "bit (w::u64) c" "\<And>j. bit w j \<Longrightarrow> int j < v" "v \<le> 64"
  shows "0 \<le> v - (int c + 1)" "v - (int c + 1) \<le> 64"
    "take_bit (nat (v - (int c + 1))) (drop_bit 1 (drop_bit c w)) = drop_bit 1 (drop_bit c w)"
proof -
  have c: "int c < v" using assms(1,2) by simp
  show "0 \<le> v - (int c + 1)" "v - (int c + 1) \<le> 64" using c assms(3) by linarith+
  have "j < nat (v - (int c + 1))" if "bit (drop_bit 1 (drop_bit c w)) j" for j
  proof -
    have "bit w (c + (1 + j))" using that by (simp add: bit_drop_bit_eq)
    then have "int (c + (1 + j)) < v" by (rule assms(2))
    then show ?thesis by linarith
  qed
  then show "take_bit (nat (v - (int c + 1))) (drop_bit 1 (drop_bit c w)) = drop_bit 1 (drop_bit c w)"
    unfolding take_bit_self_iff by blast
qed

lemma bit_lt_64: "bit w j \<Longrightarrow> int j < 64" for w :: u64
  by (auto dest: bit_imp_le_length)

lemma cursor_inv_bits: "cursor_inv s \<Longrightarrow> bit (curr_window_unary s) j \<Longrightarrow> int j < valid_lower_bits_unary s"
  unfolding cursor_inv_def take_bit_self_iff by (metis nat_less_iff of_nat_0_le_iff zless_nat_conj nat_int)

lemma readNext_unary_inv:
  assumes "cursor_inv s" "readNext_unary s = Some (r, w1, p1, v1)"
  shows "0 \<le> v1 \<and> v1 \<le> 64 \<and> take_bit (nat v1) w1 = w1 \<and>
         (curr_window_unary s = 0 \<longrightarrow> curr_ptr_unary s < p1)"
proof (cases "curr_window_unary s = 0")
  case False
  have e: "w1 = drop_bit 1 (drop_bit (rho (curr_window_unary s)) (curr_window_unary s))"
      "v1 = valid_lower_bits_unary s - (int (rho (curr_window_unary s)) + 1)"
    using assms(2) False unfolding readNext_unary_def Let_def by auto
  have v: "valid_lower_bits_unary s \<le> 64" using assms(1) by (simp add: cursor_inv_def)
  show ?thesis
    unfolding e using False inv_after_bit[OF rho_props(1)[OF False] cursor_inv_bits[OF assms(1)] v]
    by simp
next
  case True
  from assms(2) True obtain w' p' r' where
    lp: "readNext_loop (data s) (data s ! curr_ptr_unary s) (curr_ptr_unary s + 1)
           (0 + word_of_int (valid_lower_bits_unary s)) = Some (w', p', r')"
    and e: "w1 = drop_bit 1 (drop_bit (rho w') w')" "p1 = p'" "v1 = 64 - (int (rho w') + 1)"
    unfolding readNext_unary_def Let_def by (auto split: if_splits option.splits)
  have w': "w' \<noteq> 0" "curr_ptr_unary s + 1 \<le> p'" using readNext_loop_skip[OF lp, of 1] by simp_all
  show ?thesis
    unfolding e using w'(2) inv_after_bit[OF rho_props(1)[OF w'(1)] bit_lt_64]
    by simp
qed

lemma skipSubtree_loop_inv:
  "skipSubtree_loop d w p m v = Some (w', p', m', v') \<Longrightarrow> 1 \<le> m \<Longrightarrow>
   1 \<le> m' \<and> m' \<le> nu w' \<and> ((w' = w \<and> v' = v \<and> p' = p \<and> w \<noteq> 0) \<or> (v' = 64 \<and> p < p'))"
proof (induction d w p m v rule: skipSubtree_loop.induct)
  case (1 d window ptr missing valid)
  show ?case
  proof (cases "nu window < missing")
    case False
    then have "nu window \<noteq> 0" using "1.prems"(2) by linarith
    then have "window \<noteq> 0" by auto
    then show ?thesis
      using "1.prems" False by (subst (asm) skipSubtree_loop.simps) auto
  next
    case True
    have inb: "ptr < length d"
      using "1.prems"(1) True by (subst (asm) skipSubtree_loop.simps) (simp split: if_splits)
    have rec: "skipSubtree_loop d (d ! ptr) (ptr + 1) (missing - nu window) 64 = Some (w', p', m', v')"
      using "1.prems"(1) True inb by (subst (asm) skipSubtree_loop.simps) simp
    have m: "1 \<le> missing - nu window" using True by linarith
    from "1.IH"[OF True inb rec m] show ?thesis by auto
  qed
qed

lemma skipSubtree_unary_inv:
  assumes inv: "\<And>j. bit w j \<Longrightarrow> int j < v" "v \<le> 64"
    and sk: "skipSubtree_unary d w p v n = Some (w1, p1, v1)" and n: "1 \<le> n"
  shows "0 \<le> v1 \<and> v1 \<le> 64 \<and> take_bit (nat v1) w1 = w1 \<and> (w = 0 \<longrightarrow> p < p1)"
proof -
  from sk obtain w' p' m' v' where lp: "skipSubtree_loop d w p n v = Some (w', p', m', v')"
    and e: "w1 = drop_bit 1 (drop_bit (select64 w' (m' - 1)) w')" "p1 = p'"
       "v1 = v' - (int (select64 w' (m' - 1)) + 1)"
    unfolding skipSubtree_unary_def Let_def by (auto split: option.splits)
  note li = skipSubtree_loop_inv[OF lp n]
  have "m' - 1 < nu w'" using li by linarith
  then have b: "bit w' (select64 w' (m' - 1))" by (rule select64_bit)
  from li have "(w' = w \<and> v' = v \<and> p' = p \<and> w \<noteq> 0) \<or> (v' = 64 \<and> p < p')" by simp
  then show ?thesis
  proof
    assume a: "w' = w \<and> v' = v \<and> p' = p \<and> w \<noteq> 0"
    have bw: "bit w (select64 w (m' - 1))" using b a by simp
    show ?thesis unfolding e using a inv_after_bit[OF bw inv] by simp
  next
    assume a: "v' = 64 \<and> p < p'"
    show ?thesis unfolding e using a inv_after_bit[OF b bit_lt_64] by simp
  qed
qed

lemma apply_op_inv:
  assumes "cursor_inv s" "apply_op s op = Some s'"
  shows "cursor_inv s' \<and> (curr_window_unary s = 0 \<longrightarrow> curr_ptr_unary s < curr_ptr_unary s')"
proof (cases op)
  case (ReadNext l)
  from assms(2) obtain v where r: "readNext s l = Some (v, s')" by (auto simp: ReadNext)
  then have l: "l = int (nat l)" by (auto simp: readNext_def split: if_splits)
  from readNext_parts[of s "nat l" v s'] r l
  obtain r' w1 p1 v1 where u: "readNext_unary s = Some (r', w1, p1, v1)"
    and s': "s' = s\<lparr>curr_fixed_offset := curr_fixed_offset s + nat l, curr_window_unary := w1,
                     curr_ptr_unary := p1, valid_lower_bits_unary := v1\<rparr>"
    by auto
  show ?thesis using readNext_unary_inv[OF assms(1) u] by (simp add: s' cursor_inv_def)
next
  case (SkipSubtree n f)
  from assms(2) obtain w1 p1 v1 where n: "1 \<le> n"
    and u: "skipSubtree_unary (data s) (curr_window_unary s) (curr_ptr_unary s)
              (valid_lower_bits_unary s) n = Some (w1, p1, v1)"
    and s': "s' = s\<lparr>curr_window_unary := w1, curr_ptr_unary := p1, valid_lower_bits_unary := v1,
                     curr_fixed_offset := curr_fixed_offset s + f\<rparr>"
    by (auto simp: SkipSubtree skipSubtree_def split: if_splits option.splits)
  have v: "valid_lower_bits_unary s \<le> 64" using assms(1) by (simp add: cursor_inv_def)
  show ?thesis
    using skipSubtree_unary_inv[OF cursor_inv_bits[OF assms(1)] v u n] by (simp add: s' cursor_inv_def)
qed

lemma run_ops_inv: "cursor_inv s \<Longrightarrow> run_ops s ops = Some s' \<Longrightarrow> cursor_inv s'"
proof (induction ops arbitrary: s)
  case Nil
  then show ?case by simp
next
  case (Cons op ops)
  from Cons.prems(2) obtain s1 where s1: "apply_op s op = Some s1" "run_ops s1 ops = Some s'"
    by (auto split: option.splits)
  show ?case using Cons.IH[OF _ s1(2)] apply_op_inv[OF Cons.prems(1) s1(1)] by simp
qed

lemma readReset_inv:
  assumes "readReset r bit_pos unary_offset = Some s"
  shows "cursor_inv s"
proof -
  define m where "m = (bit_pos + unary_offset) mod 64"
  have m: "m < 64" by (simp add: m_def)
  have e: "valid_lower_bits_unary s = 64 - int m"
      "curr_window_unary s = drop_bit m (data r ! ((bit_pos + unary_offset) div 64))"
    using assms by (auto simp: readReset_def Let_def m_def split: if_splits)
  have "j < nat (64 - int m)" if "bit (curr_window_unary s) j" for j
  proof -
    have "bit (data r ! ((bit_pos + unary_offset) div 64)) (m + j)"
      using that by (simp add: e(2) bit_drop_bit_eq)
    then have "m + j < 64" by (auto dest: bit_imp_le_length)
    then show ?thesis by linarith
  qed
  then have "take_bit (nat (64 - int m)) (curr_window_unary s) = curr_window_unary s"
    unfolding take_bit_self_iff by blast
  then show ?thesis using m by (simp add: cursor_inv_def e(1))
qed

text \<open>
  C8: for a reader whose cursor has been set by \<open>readReset\<close>, every sequence of \<open>readNext\<close>
  and \<open>skipSubtree\<close> calls that have a defined result (no read outside the buffer, no
  failed assertion) keeps \<open>0 \<le> valid_lower_bits_unary \<le> 64\<close>; and once the window is
  exhausted (\<open>valid_lower_bits_unary = 0\<close>) every further call loads a new unary word
  before it decodes: the word pointer has advanced when the call returns.
\<close>

theorem C8_cursor_invariant:
  assumes "readReset r bit_pos unary_offset = Some s" and "run_ops s ops = Some s'"
  shows "0 \<le> valid_lower_bits_unary s' \<and> valid_lower_bits_unary s' \<le> 64 \<and>
         (valid_lower_bits_unary s' = 0 \<longrightarrow>
            (\<forall>op s''. apply_op s' op = Some s'' \<longrightarrow> curr_ptr_unary s' < curr_ptr_unary s''))"
proof -
  have inv: "cursor_inv s'" using run_ops_inv[OF readReset_inv[OF assms(1)] assms(2)] .
  have "curr_ptr_unary s' < curr_ptr_unary s''"
    if "valid_lower_bits_unary s' = 0" "apply_op s' op = Some s''" for op s''
  proof -
    have "curr_window_unary s' = 0" using inv that(1) by (simp add: cursor_inv_def)
    then show ?thesis using apply_op_inv[OF inv that(2)] by simp
  qed
  then show ?thesis using inv by (auto simp: cursor_inv_def)
qed

lemma reset_example:
  "readReset \<lparr>data = [9223372036854775808, 1], curr_fixed_offset = 0, curr_window_unary = 0,
               curr_ptr_unary = 0, valid_lower_bits_unary = 0\<rparr> 0 0 =
     Some \<lparr>data = [9223372036854775808, 1], curr_fixed_offset = 0,
           curr_window_unary = 9223372036854775808, curr_ptr_unary = 1,
           valid_lower_bits_unary = 64\<rparr>"
  by code_simp

lemma run_example:
  "run_ops \<lparr>data = [9223372036854775808, 1], curr_fixed_offset = 0,
             curr_window_unary = 9223372036854775808, curr_ptr_unary = 1,
             valid_lower_bits_unary = 64\<rparr> [ReadNext 0] =
     Some \<lparr>data = [9223372036854775808, 1], curr_fixed_offset = 0, curr_window_unary = 0,
           curr_ptr_unary = 1, valid_lower_bits_unary = 0\<rparr>"
  by code_simp

lemma next_example:
  "apply_op \<lparr>data = [9223372036854775808, 1], curr_fixed_offset = 0, curr_window_unary = 0,
              curr_ptr_unary = 1, valid_lower_bits_unary = 0\<rparr> (ReadNext 0) =
     Some \<lparr>data = [9223372036854775808, 1], curr_fixed_offset = 0, curr_window_unary = 0,
           curr_ptr_unary = 2, valid_lower_bits_unary = 63\<rparr>"
  by code_simp

text \<open>
  Witness of C8: the stream of the items \<open>(63, 0)\<close> and \<open>(0, 0)\<close>. The first terminator is
  bit 63 of word 0, so the first \<open>readNext\<close> leaves the window exhausted, and the second
  one loads word 1.
\<close>

theorem C8_cursor_invariant_witness:
  "\<exists>s s' s''.
     readReset \<lparr>data = [9223372036854775808, 1], curr_fixed_offset = 0, curr_window_unary = 0,
                curr_ptr_unary = 0, valid_lower_bits_unary = 0\<rparr> 0 0 = Some s \<and>
     run_ops s [ReadNext 0] = Some s' \<and>
     valid_lower_bits_unary s' = 0 \<and>
     apply_op s' (ReadNext 0) = Some s'' \<and>
     curr_ptr_unary s' < curr_ptr_unary s''"
proof -
  let ?S0 = "\<lparr>data = [9223372036854775808, 1], curr_fixed_offset = 0,
               curr_window_unary = 9223372036854775808, curr_ptr_unary = 1,
               valid_lower_bits_unary = 64\<rparr>"
  let ?S1 = "\<lparr>data = [9223372036854775808, 1], curr_fixed_offset = 0, curr_window_unary = 0,
               curr_ptr_unary = 1, valid_lower_bits_unary = 0\<rparr>"
  let ?S2 = "\<lparr>data = [9223372036854775808, 1], curr_fixed_offset = 0, curr_window_unary = 0,
               curr_ptr_unary = 2, valid_lower_bits_unary = 63\<rparr>"
  have v: "valid_lower_bits_unary ?S1 = 0" by simp
  from C8_cursor_invariant[OF reset_example run_example] v
  have "\<forall>op s''. apply_op ?S1 op = Some s'' \<longrightarrow> curr_ptr_unary ?S1 < curr_ptr_unary s''"
    by blast
  then have lt: "curr_ptr_unary ?S1 < curr_ptr_unary ?S2"
    using next_example by blast
  show ?thesis
  proof (intro exI conjI)
    show "readReset \<lparr>data = [9223372036854775808, 1], curr_fixed_offset = 0,
            curr_window_unary = 0, curr_ptr_unary = 0, valid_lower_bits_unary = 0\<rparr> 0 0 = Some ?S0"
      by (rule reset_example)
    show "run_ops ?S0 [ReadNext 0] = Some ?S1" by (rule run_example)
    show "valid_lower_bits_unary ?S1 = 0" by (rule v)
    show "apply_op ?S1 (ReadNext 0) = Some ?S2" by (rule next_example)
    show "curr_ptr_unary ?S1 < curr_ptr_unary ?S2" by (rule lt)
  qed
qed

section \<open>The find contract of the Fenwick tree\<close>

lemma prefix_sum_0 [simp]: "prefix_sum xs 0 = 0"
  by (simp add: prefix_sum_def)

lemma prefix_sum_Suc: "k < length xs \<Longrightarrow> prefix_sum xs (Suc k) = prefix_sum xs k + xs ! k"
  by (simp add: prefix_sum_def take_Suc_conv_app_nth)

lemma prefix_sum_mono:
  assumes "\<forall>x\<in>set xs. 0 \<le> x" "k \<le> k'" "k' \<le> length xs"
  shows "prefix_sum xs k \<le> prefix_sum xs k'"
  using assms(2,3)
proof (induction k' rule: dec_induct)
  case base
  then show ?case by simp
next
  case (step n)
  have "0 \<le> xs ! n" using assms(1) step.prems by simp
  then show ?case using step by (simp add: prefix_sum_Suc)
qed

lemma find_from_le: "find_from xs b n \<le> n"
  by (induction n) auto

lemma find_from_greatest: "k \<le> n \<Longrightarrow> prefix_sum xs k \<le> b \<Longrightarrow> k \<le> find_from xs b n"
proof (induction n)
  case 0
  then show ?case by simp
next
  case (Suc n)
  show ?case
  proof (cases "k = Suc n")
    case True
    then show ?thesis using Suc.prems(2) by simp
  next
    case False
    then have "k \<le> n" using Suc.prems(1) by simp
    from Suc.IH[OF this Suc.prems(2)] find_from_le[of xs b n] show ?thesis by simp
  qed
qed

lemma find_from_sat: "0 \<le> b \<Longrightarrow> prefix_sum xs (find_from xs b n) \<le> b"
  by (induction n) auto

text \<open>
  C9: for every Fenwick tree state whose elements are all nonnegative and every bound
  \<open>b\<close> (a \<open>uint64_t\<close>, hence nonnegative), \<open>find\<close> returns the greatest length with
  \<open>prefix(length) \<le> b\<close>; it is the unique length with
  \<open>prefix(length) \<le> b < prefix(length + 1)\<close>, or \<open>size()\<close> if \<open>b \<ge> prefix(size())\<close>; the
  bound is replaced by the excess \<open>b - prefix(length)\<close>; and the length is 0 with the full
  bound as excess when no nonempty prefix satisfies the bound. The overload that takes
  the bound by value returns the same length.
\<close>

theorem C9_find_contract:
  assumes "\<forall>x\<in>set xs. 0 \<le> x" and "0 \<le> b"
  shows "\<exists>len excess.
           find_ptr xs b = (len, excess) \<and> find_val xs b = len \<and> len \<le> length xs \<and>
           prefix_sum xs len \<le> b \<and>
           (\<forall>k \<le> length xs. prefix_sum xs k \<le> b \<longrightarrow> k \<le> len) \<and>
           (len < length xs \<longrightarrow> b < prefix_sum xs (len + 1)) \<and>
           (prefix_sum xs (length xs) \<le> b \<longrightarrow> len = length xs) \<and>
           (\<forall>k \<le> length xs.
              prefix_sum xs k \<le> b \<and> (k < length xs \<longrightarrow> b < prefix_sum xs (k + 1)) \<longrightarrow> k = len) \<and>
           excess = b - prefix_sum xs len \<and>
           ((\<forall>k. 1 \<le> k \<and> k \<le> length xs \<longrightarrow> b < prefix_sum xs k) \<longrightarrow> len = 0 \<and> excess = b)"
proof -
  define len where "len = find_from xs b (length xs)"
  have le: "len \<le> length xs" unfolding len_def by (rule find_from_le)
  have sat: "prefix_sum xs len \<le> b" unfolding len_def by (rule find_from_sat[OF assms(2)])
  have gr: "k \<le> len" if "k \<le> length xs" "prefix_sum xs k \<le> b" for k
    unfolding len_def using that by (rule find_from_greatest)
  have nxt: "b < prefix_sum xs (len + 1)" if "len < length xs"
  proof (rule ccontr)
    assume "\<not> b < prefix_sum xs (len + 1)"
    then have "len + 1 \<le> len" using that by (intro gr) simp_all
    then show False by simp
  qed
  have full: "len = length xs" if "prefix_sum xs (length xs) \<le> b"
    using gr[OF _ that] le by simp
  have uniq: "k = len"
    if "k \<le> length xs" "prefix_sum xs k \<le> b" "k < length xs \<longrightarrow> b < prefix_sum xs (k + 1)" for k
  proof (rule ccontr)
    assume "k \<noteq> len"
    then have lt: "k < len" using gr[OF that(1,2)] by simp
    then have "prefix_sum xs (k + 1) \<le> prefix_sum xs len"
      using le by (intro prefix_sum_mono[OF assms(1)]) simp_all
    then show False using that(3) lt le sat by simp
  qed
  have none: "len = 0" if "\<forall>k. 1 \<le> k \<and> k \<le> length xs \<longrightarrow> b < prefix_sum xs k"
  proof (rule ccontr)
    assume "len \<noteq> 0"
    then have "b < prefix_sum xs len" using that le by simp
    then show False using sat by simp
  qed
  have f: "find_ptr xs b = (len, b - prefix_sum xs len)" "find_val xs b = len"
    by (simp_all add: find_val_def find_ptr_def len_def Let_def)
  show ?thesis
  proof (intro exI[of _ len] exI[of _ "b - prefix_sum xs len"] conjI allI impI)
    show "find_ptr xs b = (len, b - prefix_sum xs len)" by (rule f(1))
    show "find_val xs b = len" by (rule f(2))
    show "len \<le> length xs" by (rule le)
    show "prefix_sum xs len \<le> b" by (rule sat)
    show "k \<le> len" if "k \<le> length xs" "prefix_sum xs k \<le> b" for k using that by (rule gr)
    show "b < prefix_sum xs (len + 1)" if "len < length xs" using that by (rule nxt)
    show "len = length xs" if "prefix_sum xs (length xs) \<le> b" using that by (rule full)
    show "k = len"
      if "k \<le> length xs"
        "prefix_sum xs k \<le> b \<and> (k < length xs \<longrightarrow> b < prefix_sum xs (k + 1))" for k
      using that by (intro uniq) simp_all
    show "b - prefix_sum xs len = b - prefix_sum xs len" by (rule refl)
    show "len = 0" if "\<forall>k. 1 \<le> k \<and> k \<le> length xs \<longrightarrow> b < prefix_sum xs k"
      using that by (rule none)
    show "b - prefix_sum xs len = b" if "\<forall>k. 1 \<le> k \<and> k \<le> length xs \<longrightarrow> b < prefix_sum xs k"
      using none[OF that] by simp
  qed
qed

lemma find_example: "find_ptr [2, 0, 3, 1] 4 = (2, 2)"
  by code_simp

theorem C9_find_contract_witness:
  "find_ptr [2, 0, 3, 1] 4 = (2, 2) \<and> find_val [2, 0, 3, 1] 4 = 2 \<and>
   prefix_sum [2, 0, 3, 1] 2 \<le> 4 \<and> 4 < prefix_sum [2, 0, 3, 1] (2 + 1)"
  using C9_find_contract[of "[2, 0, 3, 1]" 4] by (simp add: find_example)

end
